theory Spec2Isabelle
  imports Main "HOL-Library.Sublist"
begin

section \<open>JSON values and \<open>JSON.stringify\<close>\<close>

text \<open>
  The values that travel through the route are JSON values: the request body returned by
  \<open>req.json()\<close>, the \<open>LiveServerMessage\<close> payloads and the event objects handed to
  \<open>sseEvent\<close>. A JavaScript \<open>undefined\<close> is \<open>None\<close> of an option type. Strings are byte
  strings (UTF-8, so without lone surrogates); numbers are the integers, written in
  decimal digits as JavaScript writes the integers below \<open>10^21\<close>. An object is the list
  of its own properties in enumeration order.
\<close>

datatype json =
    JNull
  | JBool bool
  | JNum int
  | JStr string
  | JArr "json list"
  | JObj "(string \<times> json) list"

definition dquote :: char where
  "dquote = CHR 0x22"

definition backslash :: char where
  "backslash = CHR 0x5C"

definition newline :: char where
  "newline = CHR 0x0A"

definition hex_digit :: "nat \<Rightarrow> char" where
  "hex_digit n = ''0123456789abcdef'' ! (n mod 16)"

text \<open>
  \<open>QuoteJSONString\<close> of ECMA-262: the quote and the backslash are escaped, the control
  characters below U+0020 are written \<open>\b \t \n \f \r\<close> or \<open>\u00xx\<close>, every other
  character is copied.
\<close>

definition escape_char :: "char \<Rightarrow> string" where
  "escape_char c =
     (if c = dquote then [backslash, dquote]
      else if c = backslash then [backslash, backslash]
      else if c = CHR 0x08 then [backslash, CHR ''b'']
      else if c = CHR 0x09 then [backslash, CHR ''t'']
      else if c = CHR 0x0A then [backslash, CHR ''n'']
      else if c = CHR 0x0C then [backslash, CHR ''f'']
      else if c = CHR 0x0D then [backslash, CHR ''r'']
      else if (of_char c :: nat) < 0x20
        then [backslash, CHR ''u'', CHR ''0'', CHR ''0'',
              hex_digit ((of_char c :: nat) div 16), hex_digit (of_char c)]
      else [c])"

definition quote :: "string \<Rightarrow> string" where
  "quote s = dquote # concat (map escape_char s) @ [dquote]"

definition digit_char :: "nat \<Rightarrow> char" where
  "digit_char n = char_of (48 + n mod 10)"

function show_nat :: "nat \<Rightarrow> string" where
  "show_nat n = (if n < 10 then [digit_char n] else show_nat (n div 10) @ [digit_char n])"
  by pat_completeness auto
termination
  by (relation "measure id") auto

declare show_nat.simps [simp del]

definition show_int :: "int \<Rightarrow> string" where
  "show_int i = (if i < 0 then CHR ''-'' # show_nat (nat (- i)) else show_nat (nat i))"

fun stringify :: "json \<Rightarrow> string"
  and stringify_elems :: "json list \<Rightarrow> string"
  and stringify_members :: "(string \<times> json) list \<Rightarrow> string" where
  "stringify JNull = ''null''"
| "stringify (JBool b) = (if b then ''true'' else ''false'')"
| "stringify (JNum i) = show_int i"
| "stringify (JStr s) = quote s"
| "stringify (JArr xs) = CHR ''['' # stringify_elems xs @ '']''"
| "stringify (JObj kvs) = CHR ''{'' # stringify_members kvs @ ''}''"
| "stringify_elems [] = []"
| "stringify_elems [x] = stringify x"
| "stringify_elems (x # y # ys) = stringify x @ CHR '','' # stringify_elems (y # ys)"
| "stringify_members [] = []"
| "stringify_members [(k, v)] = quote k @ CHR '':'' # stringify v"
| "stringify_members ((k, v) # kv # kvs) =
     quote k @ CHR '':'' # stringify v @ CHR '','' # stringify_members (kv # kvs)"

section \<open>Outbound events and the SSE event encoder\<close>

text \<open>
  \<open>GeminiSSEEvent\<close> of \<open>_responses.ts\<close>. The optional \<open>message\<close> of an \<open>end\<close> event
  is an option: \<open>JSON.stringify\<close> leaves a property whose value is \<open>undefined\<close> out.
\<close>

datatype event =
    Open
  | Message json
  | Close string
  | End "json option"
  | Error string

fun json_of_event :: "event \<Rightarrow> json" where
  "json_of_event Open = JObj [(''type'', JStr ''open'')]"
| "json_of_event (Message p) = JObj [(''type'', JStr ''message''), (''payload'', p)]"
| "json_of_event (Close r) = JObj [(''type'', JStr ''close''), (''reason'', JStr r)]"
| "json_of_event (End None) = JObj [(''type'', JStr ''end'')]"
| "json_of_event (End (Some m)) = JObj [(''type'', JStr ''end''), (''message'', m)]"
| "json_of_event (Error e) = JObj [(''type'', JStr ''error''), (''error'', JStr e)]"

definition event_type :: "event \<Rightarrow> string" where
  "event_type ev =
     (case ev of Open \<Rightarrow> ''open'' | Message _ \<Rightarrow> ''message'' | Close _ \<Rightarrow> ''close''
      | End _ \<Rightarrow> ''end'' | Error _ \<Rightarrow> ''error'')"

text \<open>\<open>sseEvent\<close> (route.ts, line 14): the frame \<open>data: <json>\n\n\<close>.\<close>

definition sseEvent :: "json \<Rightarrow> string" where
  "sseEvent d = ''data: '' @ stringify d @ [newline, newline]"

text \<open>The frame of an event: the object literal of the call site, encoded.\<close>

definition frame :: "event \<Rightarrow> string" where
  "frame ev = sseEvent (json_of_event ev)"

section \<open>Turn normalisation\<close>

text \<open>
  POST (route.ts, lines 121-125): \<open>input\<close> is whatever the parsed body holds under that
  key; an array is passed on as it is, a non-empty string becomes a one-element array,
  everything else the default turn.
\<close>

fun post_turns :: "json option \<Rightarrow> json list" where
  "post_turns (Some (JArr xs)) = xs"
| "post_turns (Some (JStr s)) = (if length s > 0 then [JStr s] else [JStr ''Hello!''])"
| "post_turns _ = [JStr ''Hello!'']"

text \<open>GET (route.ts, line 313): \<open>input\<close> is \<open>url.searchParams.getAll("input")\<close>.\<close>

definition get_turns :: "string list \<Rightarrow> string list" where
  "get_turns input = (if length input > 0 then input else [''Hello!''])"

section \<open>Configuration and CORS headers\<close>

text \<open>The variables of \<open>process.env\<close> that the route reads; \<open>None\<close> is an unset variable.\<close>

record env =
  CORS_ALLOW_ORIGINS :: "string option"
  CORS_ALLOW_CREDENTIALS :: "string option"
  GOOGLE_GENAI_USE_VERTEXAI :: "string option"
  GOOGLE_GENAI_API_VERSION :: "string option"
  GOOGLE_CLOUD_PROJECT :: "string option"
  GOOGLE_CLOUD_LOCATION :: "string option"
  GOOGLE_API_KEY :: "string option"
  GEMINI_API_KEY :: "string option"

text \<open>
  The white space and the line terminators of ECMA-262, which \<open>String.prototype.trim\<close>
  removes and the class \<open>\s\<close> of a regular expression matches: TAB, LF, VT, FF, CR, SP,
  U+00A0, U+1680, U+2000 to U+200A, U+2028, U+2029, U+202F, U+205F, U+3000 and U+FEFF,
  each in its UTF-8 bytes.
\<close>

definition white_space :: "string list" where
  "white_space =
     [[CHR 0x09], [CHR 0x0A], [CHR 0x0B], [CHR 0x0C], [CHR 0x0D], [CHR 0x20],
      [CHR 0xC2, CHR 0xA0],
      [CHR 0xE1, CHR 0x9A, CHR 0x80],
      [CHR 0xE2, CHR 0x80, CHR 0x80], [CHR 0xE2, CHR 0x80, CHR 0x81],
      [CHR 0xE2, CHR 0x80, CHR 0x82], [CHR 0xE2, CHR 0x80, CHR 0x83],
      [CHR 0xE2, CHR 0x80, CHR 0x84], [CHR 0xE2, CHR 0x80, CHR 0x85],
      [CHR 0xE2, CHR 0x80, CHR 0x86], [CHR 0xE2, CHR 0x80, CHR 0x87],
      [CHR 0xE2, CHR 0x80, CHR 0x88], [CHR 0xE2, CHR 0x80, CHR 0x89],
      [CHR 0xE2, CHR 0x80, CHR 0x8A],
      [CHR 0xE2, CHR 0x80, CHR 0xA8], [CHR 0xE2, CHR 0x80, CHR 0xA9],
      [CHR 0xE2, CHR 0x80, CHR 0xAF],
      [CHR 0xE2, CHR 0x81, CHR 0x9F],
      [CHR 0xE3, CHR 0x80, CHR 0x80],
      [CHR 0xEF, CHR 0xBB, CHR 0xBF]]"

text \<open>A text without the members of \<open>ws\<close> that it starts with.\<close>

fun strip_start :: "string list \<Rightarrow> string \<Rightarrow> string" where
  "strip_start ws [] = []"
| "strip_start ws (c # cs) =
     (case find (\<lambda>w. w \<noteq> [] \<and> prefix w (c # cs)) ws of
        None \<Rightarrow> c # cs
      | Some w \<Rightarrow> strip_start ws (drop (length w - 1) cs))"

text \<open>
  \<open>String.prototype.trim\<close>: the white space is removed at the start and then at the
  end, where it is found by its bytes in reverse.
\<close>

definition trim :: "string \<Rightarrow> string" where
  "trim s = rev (strip_start (map rev white_space) (rev (strip_start white_space s)))"

text \<open>\<open>s.split(d)\<close> for a one-character separator: always at least one part.\<close>

fun split_on :: "char \<Rightarrow> string \<Rightarrow> string list" where
  "split_on d [] = [[]]"
| "split_on d (c # cs) =
     (if c = d then [] # split_on d cs
      else (case split_on d cs of [] \<Rightarrow> [[c]] | p # ps \<Rightarrow> (c # p) # ps))"

text \<open>A JavaScript string is truthy when it is defined and not empty.\<close>

definition truthy :: "string option \<Rightarrow> bool" where
  "truthy v = (case v of None \<Rightarrow> False | Some s \<Rightarrow> s \<noteq> [])"

datatype allow_list = Wildcard | Origins "string list"

text \<open>\<open>parseAllowedOrigins\<close> (route.ts, lines 19-27).\<close>

definition parseAllowedOrigins :: "env \<Rightarrow> allow_list" where
  "parseAllowedOrigins e =
     (let raw = map_option trim (CORS_ALLOW_ORIGINS e) in
      if \<not> truthy raw \<or> raw = Some ''*'' then Wildcard
      else
        (let parts = filter (\<lambda>s. s \<noteq> []) (map trim (split_on (CHR '','') (the raw))) in
         if length parts \<noteq> 0 then Origins parts else Wildcard))"

text \<open>
  A \<open>Headers\<close> object: a map from header names to values. \<open>set\<close> and \<open>get\<close> treat
  names without regard to case, which the map does by keeping them in lower case.
\<close>

type_synonym headers = "string \<rightharpoonup> string"

definition lower_char :: "char \<Rightarrow> char" where
  "lower_char c =
     (if 65 \<le> (of_char c :: nat) \<and> (of_char c :: nat) \<le> 90
      then char_of ((of_char c :: nat) + 32) else c)"

definition hset :: "string \<Rightarrow> string \<Rightarrow> headers \<Rightarrow> headers" where
  "hset name v h = h(map lower_char name \<mapsto> v)"

definition hget :: "headers \<Rightarrow> string \<Rightarrow> string option" where
  "hget h name = h (map lower_char name)"

text \<open>\<open>corsHeaders\<close> (route.ts, lines 29-53).\<close>

definition corsHeaders :: "env \<Rightarrow> string option \<Rightarrow> headers" where
  "corsHeaders e origin =
     (let allowList = parseAllowedOrigins e;
          allowCredentials = (CORS_ALLOW_CREDENTIALS e = Some ''true'');
          h0 = hset ''Access-Control-Allow-Methods'' ''GET,POST,OPTIONS'' Map.empty;
          h1 = hset ''Access-Control-Allow-Headers'' ''Content-Type, Authorization'' h0;
          h2 = hset ''Access-Control-Max-Age'' ''86400'' h1;
          h3 = (case allowList of
                  Wildcard \<Rightarrow> hset ''Access-Control-Allow-Origin'' ''*'' h2
                | Origins l \<Rightarrow>
                    (if truthy origin \<and> the origin \<in> set l
                     then hset ''Vary'' ''Origin''
                            (hset ''Access-Control-Allow-Origin'' (the origin) h2)
                     else h2))
      in if allowCredentials then hset ''Access-Control-Allow-Credentials'' ''true'' h3 else h3)"

text \<open>
  The callers pass \<open>req.headers.get("origin") || undefined\<close>: an empty header value
  counts as no origin.
\<close>

definition origin_arg :: "string option \<Rightarrow> string option" where
  "origin_arg o_hdr = (if truthy o_hdr then o_hdr else None)"

section \<open>Client creation\<close>

text \<open>
  What a \<open>catch\<close> clause receives: an \<open>Error\<close> object with its message, or any other
  thrown value.
\<close>

datatype thrown = ErrorObj string | OtherValue

text \<open>The options object passed to \<open>new GoogleGenAI\<close>.\<close>

datatype client =
    VertexClient string string "string option"
  | ApiKeyClient string "string option"

definition vertex_missing_msg :: string where
  "vertex_missing_msg =
     ''Vertex AI mode enabled (GOOGLE_GENAI_USE_VERTEXAI=true) but GOOGLE_CLOUD_PROJECT or GOOGLE_CLOUD_LOCATION is missing.''"

definition api_key_missing_msg :: string where
  "api_key_missing_msg = ''Missing GOOGLE_API_KEY or GEMINI_API_KEY environment variable.''"

text \<open>\<open>a || b\<close> on strings that may be undefined.\<close>

definition or_else :: "string option \<Rightarrow> string option \<Rightarrow> string option" where
  "or_else a b = (if truthy a then a else b)"

text \<open>\<open>if (apiVersion) opts.apiVersion = apiVersion\<close>.\<close>

definition version_opt :: "string option \<Rightarrow> string option" where
  "version_opt v = (if truthy v then v else None)"

text \<open>\<open>createGenAI\<close> (route.ts, lines 62-96); \<open>Inl\<close> is the thrown \<open>Error\<close>.\<close>

definition createGenAI :: "env \<Rightarrow> thrown + client" where
  "createGenAI e =
     (let useVertex = (GOOGLE_GENAI_USE_VERTEXAI e = Some ''true'');
          apiVersion = GOOGLE_GENAI_API_VERSION e
      in if useVertex then
           (let project = GOOGLE_CLOUD_PROJECT e; location = GOOGLE_CLOUD_LOCATION e
            in if \<not> truthy project \<or> \<not> truthy location
               then Inl (ErrorObj vertex_missing_msg)
               else Inr (VertexClient (the project) (the location) (version_opt apiVersion)))
         else
           (let apiKey = or_else (GOOGLE_API_KEY e) (GEMINI_API_KEY e)
            in if \<not> truthy apiKey
               then Inl (ErrorObj api_key_missing_msg)
               else Inr (ApiKeyClient (the apiKey) (version_opt apiVersion))))"

section \<open>The request handlers\<close>

datatype body = NoBody | TextBody string | StreamBody

record response =
  status :: nat
  headers :: headers
  body :: body

text \<open>
  What a handler did besides answering: \<open>session\<close> is the model and the turns of the
  Live session it connected and sent the turns to, \<open>None\<close> when no session was opened.
\<close>

record outcome =
  resp :: response
  session :: "(json \<times> json list) option"

text \<open>
  A request as the handlers read it: the \<open>origin\<close> header, the body as \<open>req.json()\<close>
  parses it (\<open>None\<close> when that promise rejects), and the query parameters in order.
\<close>

record request =
  origin_header :: "string option"
  json_body :: "json option"
  query :: "(string \<times> string) list"

text \<open>What \<open>ai.live.connect\<close> does: resolve to a session, or reject.\<close>

datatype connect_result = Connected | ConnectFailed thrown

definition default_model :: string where
  "default_model = ''models/gemini-2.5-flash-preview-native-audio-dialog''"

text \<open>\<open>e instanceof Error ? e.message : fallback\<close>.\<close>

definition message_of :: "thrown \<Rightarrow> string \<Rightarrow> string" where
  "message_of t fallback = (case t of ErrorObj m \<Rightarrow> m | OtherValue \<Rightarrow> fallback)"

definition error_body :: "string \<Rightarrow> body" where
  "error_body msg = TextBody (stringify (JObj [(''error'', JStr msg)]))"

text \<open>The outer \<open>catch\<close> of both handlers (route.ts, lines 217-225 and 391-399).\<close>

definition catch_all :: "env \<Rightarrow> request \<Rightarrow> thrown \<Rightarrow> outcome" where
  "catch_all e req err =
     \<lparr>resp = \<lparr>status = 500,
              headers = hset ''content-type'' ''application/json''
                          (corsHeaders e (origin_arg (origin_header req))),
              body = error_body (message_of err ''Unknown error'')\<rparr>,
      session = None\<rparr>"

text \<open>The headers of the streaming response (route.ts, lines 210-214).\<close>

definition stream_headers :: "env \<Rightarrow> request \<Rightarrow> headers" where
  "stream_headers e req =
     hset ''X-Accel-Buffering'' ''no''
       (hset ''Connection'' ''keep-alive''
         (hset ''Cache-Control'' ''no-cache, no-transform''
           (hset ''Content-Type'' ''text/event-stream; charset=utf-8''
             (corsHeaders e (origin_arg (origin_header req))))))"

text \<open>
  Property lookup on a parsed object: \<open>JSON.parse\<close> keeps the last of several members
  with one name.
\<close>

definition get_prop :: "(string \<times> json) list \<Rightarrow> string \<Rightarrow> json option" where
  "get_prop kvs k = map_of (rev kvs) k"

text \<open>
  \<open>const { input, model: modelOverride } = await req.json().catch(() => ({}))\<close>:
  destructuring \<open>null\<close> throws a \<open>TypeError\<close>, any other value that is not an object has
  neither property.
\<close>

definition destructure_body :: "json option \<Rightarrow> thrown + (json option \<times> json option)" where
  "destructure_body b =
     (case b of
        None \<Rightarrow> Inr (None, None)
      | Some JNull \<Rightarrow> Inl (ErrorObj ''Cannot destructure property of null'')
      | Some (JObj kvs) \<Rightarrow> Inr (get_prop kvs ''input'', get_prop kvs ''model'')
      | Some _ \<Rightarrow> Inr (None, None))"

text \<open>\<open>modelOverride ?? default\<close>: only \<open>undefined\<close> and \<open>null\<close> give the default.\<close>

definition model_or_default :: "json option \<Rightarrow> json" where
  "model_or_default m =
     (case m of None \<Rightarrow> JStr default_model | Some JNull \<Rightarrow> JStr default_model | Some v \<Rightarrow> v)"

text \<open>\<open>POST\<close> (route.ts, lines 98-226).\<close>

definition POST :: "env \<Rightarrow> request \<Rightarrow> connect_result \<Rightarrow> outcome" where
  "POST e req conn =
     (case createGenAI e of
        Inl err \<Rightarrow>
          \<lparr>resp = \<lparr>status = 500,
                   headers = [''content-type'' \<mapsto> ''application/json''],
                   body = error_body (message_of err ''Client initialization error'')\<rparr>,
           session = None\<rparr>
      | Inr ai \<Rightarrow>
          (case destructure_body (json_body req) of
             Inl err \<Rightarrow> catch_all e req err
           | Inr (input, modelOverride) \<Rightarrow>
               (let model = model_or_default modelOverride;
                    turns = post_turns input
                in case conn of
                     ConnectFailed err \<Rightarrow> catch_all e req err
                   | Connected \<Rightarrow>
                       \<lparr>resp = \<lparr>status = 200, headers = stream_headers e req,
                                body = StreamBody\<rparr>,
                        session = Some (model, turns)\<rparr>)))"

text \<open>\<open>searchParams.get\<close> and \<open>searchParams.getAll\<close>.\<close>

definition param_get :: "(string \<times> string) list \<Rightarrow> string \<Rightarrow> string option" where
  "param_get q k = map_of q k"

definition param_getAll :: "(string \<times> string) list \<Rightarrow> string \<Rightarrow> string list" where
  "param_getAll q k = map snd (filter (\<lambda>kv. fst kv = k) q)"

text \<open>
  The health branch of \<open>GET\<close> (route.ts, lines 248-306) asks the remote API with
  \<open>fetch\<close>; its answer is a parameter of the handler. (The second listing of the
  route answers 204 there without asking.)
\<close>

datatype fetch_result = FetchOk | FetchNotOk nat string | FetchThrows string

definition health :: "env \<Rightarrow> request \<Rightarrow> fetch_result \<Rightarrow> response" where
  "health e req probe =
     (let hs = corsHeaders e (origin_arg (origin_header req));
          jh = hset ''content-type'' ''application/json'' hs
      in if GOOGLE_GENAI_USE_VERTEXAI e = Some ''true'' then
           (if \<not> truthy (GOOGLE_CLOUD_PROJECT e) \<or> \<not> truthy (GOOGLE_CLOUD_LOCATION e)
            then \<lparr>status = 500, headers = jh,
                  body = error_body ''Missing GOOGLE_CLOUD_PROJECT or GOOGLE_CLOUD_LOCATION''\<rparr>
            else \<lparr>status = 204, headers = hs, body = NoBody\<rparr>)
         else if \<not> truthy (or_else (GOOGLE_API_KEY e) (GEMINI_API_KEY e))
           then \<lparr>status = 500, headers = jh,
                 body = error_body ''Missing GOOGLE_API_KEY or GEMINI_API_KEY''\<rparr>
         else
           (case probe of
              FetchOk \<Rightarrow> \<lparr>status = 204, headers = hs, body = NoBody\<rparr>
            | FetchNotOk code text \<Rightarrow>
                \<lparr>status = 500, headers = jh,
                 body = TextBody (stringify (JObj
                   [(''error'', JStr (''Google API health failed: '' @ show_nat code)),
                    (''body'', JStr (take 300 text))]))\<rparr>
            | FetchThrows msg \<Rightarrow> \<lparr>status = 500, headers = jh, body = error_body msg\<rparr>))"

text \<open>\<open>GET\<close> (route.ts, lines 229-400).\<close>

definition GET :: "env \<Rightarrow> request \<Rightarrow> fetch_result \<Rightarrow> connect_result \<Rightarrow> outcome" where
  "GET e req probe conn =
     (case createGenAI e of
        Inl err \<Rightarrow>
          \<lparr>resp = \<lparr>status = 500,
                   headers = hset ''content-type'' ''application/json''
                               (corsHeaders e (origin_arg (origin_header req))),
                   body = error_body (message_of err ''Client initialization error'')\<rparr>,
           session = None\<rparr>
      | Inr ai \<Rightarrow>
          if param_get (query req) ''health'' = Some ''1''
          then \<lparr>resp = health e req probe, session = None\<rparr>
          else
            (let model = (case param_get (query req) ''model'' of
                            None \<Rightarrow> JStr default_model | Some m \<Rightarrow> JStr m);
                 turns = get_turns (param_getAll (query req) ''input'')
             in case conn of
                  ConnectFailed err \<Rightarrow> catch_all e req err
                | Connected \<Rightarrow>
                    \<lparr>resp = \<lparr>status = 200, headers = stream_headers e req,
                             body = StreamBody\<rparr>,
                     session = Some (model, map JStr turns)\<rparr>))"

section \<open>The outbound byte stream\<close>

text \<open>
  The writer of the \<open>TransformStream\<close> (\<open>stream.writable.getWriter()\<close>), as the Streams
  standard defines it: chunks are accepted in the order of the \<open>write\<close> calls; once
  \<open>close\<close> has been called, \<open>write\<close> and \<open>close\<close> return rejected promises and change
  nothing.
\<close>

datatype settled = Fulfilled | Rejected

record writer =
  chunks :: "string list"
  closing :: bool

definition writer_write :: "string \<Rightarrow> writer \<Rightarrow> settled \<times> writer" where
  "writer_write c w =
     (if closing w then (Rejected, w) else (Fulfilled, w\<lparr>chunks := chunks w @ [c]\<rparr>))"

definition writer_close :: "writer \<Rightarrow> settled \<times> writer" where
  "writer_close w = (if closing w then (Rejected, w) else (Fulfilled, w\<lparr>closing := True\<rparr>))"

section \<open>The session bridge\<close>

text \<open>
  The callbacks are \<open>async\<close> functions: each runs until its next \<open>await\<close> and is
  resumed when the awaited promise has settled. A suspended callback is the place of its
  \<open>await\<close> in the source together with the outcome of the awaited promise. The promises
  of one writer settle in the order of the calls, so the suspended callbacks resume first
  in, first out. (A rejected promise settles at once; the callback resumed from it writes
  nothing, so its place in the queue does not show in the stream.)
\<close>

datatype cont =
    AfterOpenWrite
  | AfterMessageWrite json
  | AfterErrorWrite
  | AfterCloseWrite
  | AfterEndWrite
  | AfterWriterClose

text \<open>
  \<open>sdk_strict\<close> says whether \<open>session.close()\<close> of the SDK throws on a handle that is
  closed already; \<open>rejections\<close> counts the callbacks that ended with an exception.
\<close>

record bridge =
  writer :: writer
  session_closed :: bool
  sdk_strict :: bool
  pending :: "(cont \<times> settled) list"
  rejections :: nat

definition init_bridge :: "bool \<Rightarrow> bridge" where
  "init_bridge strict =
     \<lparr>writer = \<lparr>chunks = [], closing = False\<rparr>, session_closed = False,
      sdk_strict = strict, pending = [], rejections = 0\<rparr>"

text \<open>\<open>await writer.write(c)\<close> and \<open>await writer.close()\<close>, up to the suspension.\<close>

definition await_write :: "string \<Rightarrow> cont \<Rightarrow> bridge \<Rightarrow> bridge" where
  "await_write c k b =
     (let (r, w) = writer_write c (writer b)
      in b\<lparr>writer := w, pending := pending b @ [(k, r)]\<rparr>)"

definition await_close :: "cont \<Rightarrow> bridge \<Rightarrow> bridge" where
  "await_close k b =
     (let (r, w) = writer_close (writer b)
      in b\<lparr>writer := w, pending := pending b @ [(k, r)]\<rparr>)"

text \<open>\<open>session.close()\<close> of the SDK, and the guarded call \<open>try { session.close() } catch {}\<close>.\<close>

definition session_close :: "bridge \<Rightarrow> thrown + bridge" where
  "session_close b =
     (if sdk_strict b \<and> session_closed b then Inl (ErrorObj ''session already closed'')
      else Inr (b\<lparr>session_closed := True\<rparr>))"

definition try_session_close :: "bridge \<Rightarrow> bridge" where
  "try_session_close b = (case session_close b of Inl _ \<Rightarrow> b | Inr b' \<Rightarrow> b')"

text \<open>The truth value of a JavaScript value in a condition.\<close>

definition js_truthy :: "json option \<Rightarrow> bool" where
  "js_truthy v =
     (case v of
        None \<Rightarrow> False
      | Some JNull \<Rightarrow> False
      | Some (JBool b) \<Rightarrow> b
      | Some (JNum i) \<Rightarrow> i \<noteq> 0
      | Some (JStr s) \<Rightarrow> s \<noteq> []
      | Some _ \<Rightarrow> True)"

text \<open>
  \<open>closeWith\<close> (route.ts, lines 133-144). Both awaits sit in a \<open>try\<close> whose \<open>catch\<close>
  ignores the exception, so the function goes on whatever the outcome.
\<close>

definition closeWith_close :: "bridge \<Rightarrow> bridge" where
  "closeWith_close b = await_close AfterWriterClose b"

definition closeWith :: "json option \<Rightarrow> bridge \<Rightarrow> bridge" where
  "closeWith message b =
     (if js_truthy message
      then await_write (sseEvent (json_of_event (End message))) AfterEndWrite b
      else closeWith_close b)"

text \<open>The callbacks (route.ts, lines 163-192), up to their first \<open>await\<close>.\<close>

definition onopen :: "bridge \<Rightarrow> bridge" where
  "onopen b = await_write (sseEvent (json_of_event Open)) AfterOpenWrite b"

definition onmessage :: "json \<Rightarrow> bridge \<Rightarrow> bridge" where
  "onmessage message b =
     await_write (sseEvent (json_of_event (Message message))) (AfterMessageWrite message) b"

definition onerror :: "string \<Rightarrow> bridge \<Rightarrow> bridge" where
  "onerror e_message b =
     await_write (sseEvent (json_of_event (Error e_message))) AfterErrorWrite b"

definition onclose :: "string \<Rightarrow> bridge \<Rightarrow> bridge" where
  "onclose e_reason b =
     await_write (sseEvent (json_of_event (Close e_reason))) AfterCloseWrite b"

text \<open>The abort listener (route.ts, lines 201-208).\<close>

definition onabort :: "bridge \<Rightarrow> bridge" where
  "onabort b = try_session_close b"

text \<open>\<open>message.serverContent?.turnComplete\<close> as a condition.\<close>

definition turnComplete :: "json \<Rightarrow> bool" where
  "turnComplete message =
     (case message of
        JObj kvs \<Rightarrow>
          (case get_prop kvs ''serverContent'' of
             Some (JObj sc) \<Rightarrow> js_truthy (get_prop sc ''turnComplete'')
           | _ \<Rightarrow> False)
      | _ \<Rightarrow> False)"

definition failed :: "bridge \<Rightarrow> bridge" where
  "failed b = b\<lparr>rejections := rejections b + 1\<rparr>"

text \<open>
  The rest of a callback after its \<open>await\<close>. In the callbacks the awaited write is not
  inside a \<open>try\<close>: a rejected write ends the callback with that exception. Reading a
  property of \<open>null\<close> throws.
\<close>

fun continue :: "cont \<Rightarrow> settled \<Rightarrow> bridge \<Rightarrow> bridge" where
  "continue AfterOpenWrite r b = (if r = Rejected then failed b else b)"
| "continue (AfterMessageWrite message) r b =
     (if r = Rejected \<or> message = JNull then failed b
      else if turnComplete message
        then closeWith (Some (JStr ''turn_complete'')) (try_session_close b)
      else b)"
| "continue AfterErrorWrite r b =
     (if r = Rejected then failed b
      else closeWith (Some (JStr ''error'')) (try_session_close b))"
| "continue AfterCloseWrite r b =
     (if r = Rejected then failed b else closeWith (Some (JStr ''closed'')) b)"
| "continue AfterEndWrite r b = closeWith_close b"
| "continue AfterWriterClose r b = b"

definition resume :: "bridge \<Rightarrow> bridge" where
  "resume b =
     (case pending b of
        [] \<Rightarrow> b
      | (k, r) # rest \<Rightarrow> continue k r (b\<lparr>pending := rest\<rparr>))"

text \<open>What the remote session and the client do to the bridge.\<close>

datatype signal =
    SigOpen
  | SigMessage json
  | SigError string
  | SigClose string
  | SigAbort

fun deliver :: "signal \<Rightarrow> bridge \<Rightarrow> bridge" where
  "deliver SigOpen b = onopen b"
| "deliver (SigMessage m) b = onmessage m b"
| "deliver (SigError e) b = onerror e b"
| "deliver (SigClose r) b = onclose r b"
| "deliver SigAbort b = onabort b"

text \<open>
  A run of the bridge: the signals in the order the session delivers them, and between
  them the moments at which the oldest suspended callback is resumed.
\<close>

datatype action = Deliver signal | Resume

fun step :: "bridge \<Rightarrow> action \<Rightarrow> bridge" where
  "step b (Deliver sig) = deliver sig b"
| "step b Resume = resume b"

definition run :: "action list \<Rightarrow> bridge \<Rightarrow> bridge" where
  "run acts b = foldl step b acts"

text \<open>How many awaits a suspended callback has before it at most.\<close>

fun awaits_left :: "cont \<Rightarrow> nat" where
  "awaits_left AfterOpenWrite = 1"
| "awaits_left (AfterMessageWrite m) = 3"
| "awaits_left AfterErrorWrite = 3"
| "awaits_left AfterCloseWrite = 3"
| "awaits_left AfterEndWrite = 2"
| "awaits_left AfterWriterClose = 1"

definition work :: "bridge \<Rightarrow> nat" where
  "work b = sum_list (map (\<lambda>kr. awaits_left (fst kr)) (pending b))"

text \<open>Resuming until no callback is suspended: every callback runs to its end.\<close>

function drain :: "bridge \<Rightarrow> bridge" where
  "drain b = (if pending b = [] then b else drain (resume b))"
  by pat_completeness auto
termination
proof (relation "measure work")
  show "wf (measure work)"
    by simp
next
  fix b :: bridge
  assume "pending b \<noteq> []"
  then obtain k r rest where p: "pending b = (k, r) # rest"
    by (cases "pending b") auto
  have "work (resume b) < work b"
    by (cases k)
       (simp_all add: p work_def resume_def closeWith_def closeWith_close_def await_write_def
          await_close_def try_session_close_def session_close_def failed_def
          split: prod.splits)
  then show "(resume b, b) \<in> measure work"
    by simp
qed

declare drain.simps [simp del]

text \<open>The session delivers each signal only after the callbacks before it have ended.\<close>

definition run_in_turn :: "signal list \<Rightarrow> bridge \<Rightarrow> bridge" where
  "run_in_turn sigs b = foldl (\<lambda>b sig. drain (deliver sig b)) b sigs"

text \<open>
  The session delivers the signals one after the other before any awaited write has
  settled, as the simulated sessions of the tests do; then the callbacks run to their end.
\<close>

definition run_at_once :: "signal list \<Rightarrow> bridge \<Rightarrow> bridge" where
  "run_at_once sigs b = drain (run (map Deliver sigs) b)"

section \<open>Reading the stream back\<close>

text \<open>
  \<open>JSON.parse\<close> on the values of this model. White space between tokens is SP, TAB,
  LF and CR. A number with a fraction or an exponent is not an integer of the model and
  gives \<open>None\<close>, as a syntax error does.
\<close>

definition is_json_ws :: "char \<Rightarrow> bool" where
  "is_json_ws c \<longleftrightarrow> c \<in> {CHR 0x20, CHR 0x09, CHR 0x0A, CHR 0x0D}"

definition skip_ws :: "string \<Rightarrow> string" where
  "skip_ws s = dropWhile is_json_ws s"

definition is_digit :: "char \<Rightarrow> bool" where
  "is_digit c \<longleftrightarrow> 48 \<le> (of_char c :: nat) \<and> (of_char c :: nat) \<le> 57"

definition digit_val :: "char \<Rightarrow> nat" where
  "digit_val c = of_char c - 48"

definition digits_value :: "string \<Rightarrow> nat" where
  "digits_value ds = foldl (\<lambda>acc d. 10 * acc + digit_val d) 0 ds"

definition parse_nat :: "string \<Rightarrow> (nat \<times> string) option" where
  "parse_nat s =
     (let ds = takeWhile is_digit s; r = dropWhile is_digit s
      in if ds = [] then None
         else if hd ds = CHR ''0'' \<and> length ds > 1 then None
         else if r \<noteq> [] \<and> hd r \<in> {CHR ''.'', CHR ''e'', CHR ''E''} then None
         else Some (digits_value ds, r))"

definition parse_number :: "string \<Rightarrow> (int \<times> string) option" where
  "parse_number s =
     (case s of
        [] \<Rightarrow> None
      | c # r \<Rightarrow>
          if c = CHR ''-''
          then (case parse_nat r of None \<Rightarrow> None | Some (n, r') \<Rightarrow> Some (- int n, r'))
          else (case parse_nat s of None \<Rightarrow> None | Some (n, r') \<Rightarrow> Some (int n, r')))"

definition hex_val :: "char \<Rightarrow> nat option" where
  "hex_val c =
     (let n = (of_char c :: nat)
      in if 48 \<le> n \<and> n \<le> 57 then Some (n - 48)
         else if 97 \<le> n \<and> n \<le> 102 then Some (n - 87)
         else if 65 \<le> n \<and> n \<le> 70 then Some (n - 55)
         else None)"

text \<open>
  The UTF-8 bytes of the code unit of a \<open>\uXXXX\<close> escape; a surrogate has none of its
  own.
\<close>

definition utf8 :: "nat \<Rightarrow> string option" where
  "utf8 n =
     (if n < 0x80 then Some [char_of n]
      else if n < 0x800 then Some [char_of (0xC0 + n div 64), char_of (0x80 + n mod 64)]
      else if 0xD800 \<le> n \<and> n < 0xE000 then None
      else Some [char_of (0xE0 + n div 4096), char_of (0x80 + (n div 64) mod 64),
                 char_of (0x80 + n mod 64)])"

definition unhex4 :: "char \<Rightarrow> char \<Rightarrow> char \<Rightarrow> char \<Rightarrow> string option" where
  "unhex4 a b c d =
     (case (hex_val a, hex_val b, hex_val c, hex_val d) of
        (Some x, Some y, Some z, Some w) \<Rightarrow> utf8 (((x * 16 + y) * 16 + z) * 16 + w)
      | _ \<Rightarrow> None)"

definition unescape :: "char \<Rightarrow> char option" where
  "unescape e =
     (if e = dquote then Some dquote
      else if e = backslash then Some backslash
      else if e = CHR ''/'' then Some (CHR ''/'')
      else if e = CHR ''b'' then Some (CHR 0x08)
      else if e = CHR ''f'' then Some (CHR 0x0C)
      else if e = CHR ''n'' then Some (CHR 0x0A)
      else if e = CHR ''r'' then Some (CHR 0x0D)
      else if e = CHR ''t'' then Some (CHR 0x09)
      else None)"

text \<open>The characters of a string literal after its opening quote.\<close>

fun parse_string :: "string \<Rightarrow> (string \<times> string) option" where
  "parse_string [] = None"
| "parse_string (c # r) =
     (if c = dquote then Some ([], r)
      else if c = backslash then
        (case r of
           [] \<Rightarrow> None
         | e # r' \<Rightarrow>
             if e = CHR ''u'' then
               (case r' of
                  h1 # h2 # h3 # h4 # r'' \<Rightarrow>
                    (case unhex4 h1 h2 h3 h4 of
                       None \<Rightarrow> None
                     | Some bs \<Rightarrow>
                         (case parse_string r'' of
                            None \<Rightarrow> None
                          | Some (str, rest) \<Rightarrow> Some (bs @ str, rest)))
                | _ \<Rightarrow> None)
             else
               (case unescape e of
                  None \<Rightarrow> None
                | Some ch \<Rightarrow>
                    (case parse_string r' of
                       None \<Rightarrow> None
                     | Some (str, rest) \<Rightarrow> Some (ch # str, rest))))
      else if (of_char c :: nat) < 0x20 then None
      else (case parse_string r of
              None \<Rightarrow> None
            | Some (str, rest) \<Rightarrow> Some (c # str, rest)))"

text \<open>
  An object built from its members in the order of the text: a name that comes again
  replaces the value and keeps the place.
\<close>

fun put_member :: "string \<times> json \<Rightarrow> (string \<times> json) list \<Rightarrow> (string \<times> json) list" where
  "put_member kv [] = [kv]"
| "put_member kv (p # ps) = (if fst p = fst kv then kv # ps else p # put_member kv ps)"

definition object_of :: "(string \<times> json) list \<Rightarrow> json" where
  "object_of kvs = JObj (foldl (\<lambda>acc kv. put_member kv acc) [] kvs)"

text \<open>
  The recursive descent, with fuel: every call to a deeper value or to the next element
  takes one unit, and the length of the text is enough.
\<close>

fun parse_value :: "nat \<Rightarrow> string \<Rightarrow> (json \<times> string) option"
  and parse_elems :: "nat \<Rightarrow> string \<Rightarrow> (json list \<times> string) option"
  and parse_members :: "nat \<Rightarrow> string \<Rightarrow> ((string \<times> json) list \<times> string) option" where
  "parse_value 0 s = None"
| "parse_value (Suc n) s =
     (case skip_ws s of
        [] \<Rightarrow> None
      | c # r \<Rightarrow>
          if c = CHR ''n'' then (if take 3 r = ''ull'' then Some (JNull, drop 3 r) else None)
          else if c = CHR ''t'' then
            (if take 3 r = ''rue'' then Some (JBool True, drop 3 r) else None)
          else if c = CHR ''f'' then
            (if take 4 r = ''alse'' then Some (JBool False, drop 4 r) else None)
          else if c = dquote then
            (case parse_string r of None \<Rightarrow> None | Some (str, r') \<Rightarrow> Some (JStr str, r'))
          else if c = CHR ''['' then
            (case skip_ws r of
               [] \<Rightarrow> None
             | d # r' \<Rightarrow>
                 if d = CHR '']'' then Some (JArr [], r')
                 else (case parse_elems n (d # r') of
                         None \<Rightarrow> None
                       | Some (vs, r'') \<Rightarrow> Some (JArr vs, r'')))
          else if c = CHR ''{'' then
            (case skip_ws r of
               [] \<Rightarrow> None
             | d # r' \<Rightarrow>
                 if d = CHR ''}'' then Some (JObj [], r')
                 else (case parse_members n (d # r') of
                         None \<Rightarrow> None
                       | Some (kvs, r'') \<Rightarrow> Some (object_of kvs, r'')))
          else (case parse_number (c # r) of
                  None \<Rightarrow> None
                | Some (i, r') \<Rightarrow> Some (JNum i, r')))"
| "parse_elems 0 s = None"
| "parse_elems (Suc n) s =
     (case parse_value n s of
        None \<Rightarrow> None
      | Some (v, r) \<Rightarrow>
          (case skip_ws r of
             [] \<Rightarrow> None
           | c # r' \<Rightarrow>
               if c = CHR '','' then
                 (case parse_elems n r' of
                    None \<Rightarrow> None
                  | Some (vs, r'') \<Rightarrow> Some (v # vs, r''))
               else if c = CHR '']'' then Some ([v], r')
               else None))"
| "parse_members 0 s = None"
| "parse_members (Suc n) s =
     (case skip_ws s of
        [] \<Rightarrow> None
      | c # r \<Rightarrow>
          if c \<noteq> dquote then None
          else
            (case parse_string r of
               None \<Rightarrow> None
             | Some (k, r1) \<Rightarrow>
                 (case skip_ws r1 of
                    [] \<Rightarrow> None
                  | c1 # r2 \<Rightarrow>
                      if c1 \<noteq> CHR '':'' then None
                      else
                        (case parse_value n r2 of
                           None \<Rightarrow> None
                         | Some (v, r3) \<Rightarrow>
                             (case skip_ws r3 of
                                [] \<Rightarrow> None
                              | c3 # r4 \<Rightarrow>
                                  if c3 = CHR '','' then
                                    (case parse_members n r4 of
                                       None \<Rightarrow> None
                                     | Some (kvs, r5) \<Rightarrow> Some ((k, v) # kvs, r5))
                                  else if c3 = CHR ''}'' then Some ([(k, v)], r4)
                                  else None)))))"

definition json_parse :: "string \<Rightarrow> json option" where
  "json_parse s =
     (case parse_value (length s) s of
        None \<Rightarrow> None
      | Some (v, r) \<Rightarrow> if skip_ws r = [] then Some v else None)"

text \<open>
  \<open>readSSE\<close> of the route's test (src/unnamed/part_003, lines 9-35), on the whole text of
  the stream:
  cut at each \<open>\n\n\<close>, trim the piece, and if it starts with \<open>data:\<close> parse what
  follows that and the white space after it (\<open>/^data:\s*/\<close>); a piece that does not
  parse is skipped.
\<close>

fun index_nn :: "string \<Rightarrow> nat option" where
  "index_nn (a # b # r) =
     (if a = newline \<and> b = newline then Some 0 else map_option Suc (index_nn (b # r)))"
| "index_nn _ = None"

definition read_chunk :: "string \<Rightarrow> json list" where
  "read_chunk piece =
     (let chunk = trim piece
      in if take 5 chunk = ''data:''
         then (case json_parse (strip_start white_space (drop 5 chunk)) of
                 None \<Rightarrow> []
               | Some v \<Rightarrow> [v])
         else [])"

function readSSE :: "string \<Rightarrow> json list" where
  "readSSE buffer =
     (case index_nn buffer of
        None \<Rightarrow> []
      | Some idx \<Rightarrow> read_chunk (take idx buffer) @ readSSE (drop (idx + 2) buffer))"
  by pat_completeness auto
termination
proof (relation "measure length")
  show "wf (measure length)"
    by simp
next
  fix buffer :: string and idx
  assume "index_nn buffer = Some idx"
  then have "buffer \<noteq> []"
    by (cases buffer) auto
  then show "(drop (idx + 2) buffer, buffer) \<in> measure length"
    by simp
qed

declare readSSE.simps [simp del]

text \<open>How often \<open>\n\n\<close> occurs in a text.\<close>

fun count_nn :: "string \<Rightarrow> nat" where
  "count_nn (a # b # r) = (if a = newline \<and> b = newline then 1 else 0) + count_nn (b # r)"
| "count_nn _ = 0"

text \<open>A JavaScript object has each property name once.\<close>

fun wf_json :: "json \<Rightarrow> bool"
  and wf_elems :: "json list \<Rightarrow> bool"
  and wf_members :: "(string \<times> json) list \<Rightarrow> bool" where
  "wf_json (JArr xs) = wf_elems xs"
| "wf_json (JObj kvs) = (distinct (map fst kvs) \<and> wf_members kvs)"
| "wf_json _ = True"
| "wf_elems [] = True"
| "wf_elems (x # xs) = (wf_json x \<and> wf_elems xs)"
| "wf_members [] = True"
| "wf_members ((k, v) # kvs) = (wf_json v \<and> wf_members kvs)"

text \<open>An event whose payload is such a value.\<close>

fun wf_event :: "event \<Rightarrow> bool" where
  "wf_event (Message p) = wf_json p"
| "wf_event (End (Some m)) = wf_json m"
| "wf_event _ = True"


text \<open>Where the text of a number may end in a serialisation.\<close>

definition number_ends :: "string \<Rightarrow> bool" where
  "number_ends r \<longleftrightarrow> r = [] \<or> hd r \<in> {CHR '','', CHR '']'', CHR ''}''}"

text \<open>A character that can begin a value: no white space and no punctuation.\<close>

definition value_start :: "char \<Rightarrow> bool" where
  "value_start c \<longleftrightarrow>
     \<not> is_json_ws c \<and> c \<noteq> CHR '']'' \<and> c \<noteq> CHR ''}'' \<and> c \<noteq> CHR '','' \<and> c \<noteq> CHR '':''"

text \<open>Fuel that is enough to parse the serialisation of a value.\<close>

fun need :: "json \<Rightarrow> nat"
  and need_elems :: "json list \<Rightarrow> nat"
  and need_members :: "(string \<times> json) list \<Rightarrow> nat" where
  "need (JArr xs) = Suc (need_elems xs)"
| "need (JObj kvs) = Suc (need_members kvs)"
| "need _ = 1"
| "need_elems [] = 0"
| "need_elems (x # xs) = Suc (need x + need_elems xs)"
| "need_members [] = 0"
| "need_members ((k, v) # kvs) = Suc (need v + need_members kvs)"


section \<open>The environment and the requests of the tests\<close>

text \<open>\<open>process.env.GEMINI_API_KEY = "test-key"\<close> and nothing else set.\<close>

definition env_with_key :: env where
  "env_with_key =
     \<lparr>CORS_ALLOW_ORIGINS = None, CORS_ALLOW_CREDENTIALS = None,
      GOOGLE_GENAI_USE_VERTEXAI = None, GOOGLE_GENAI_API_VERSION = None,
      GOOGLE_CLOUD_PROJECT = None, GOOGLE_CLOUD_LOCATION = None,
      GOOGLE_API_KEY = None, GEMINI_API_KEY = Some ''test-key''\<rparr>"

text \<open>A POST request with a JSON body and no \<open>origin\<close> header.\<close>

definition post_request :: "json \<Rightarrow> request" where
  "post_request b = \<lparr>origin_header = None, json_body = Some b, query = []\<rparr>"

text \<open>A GET request with query parameters and no \<open>origin\<close> header.\<close>

definition get_request :: "(string \<times> string) list \<Rightarrow> request" where
  "get_request q = \<lparr>origin_header = None, json_body = None, query = q\<rparr>"



text \<open>The two messages of the simulated session of the tests.\<close>

definition spoken_message :: json where
  "spoken_message =
     JObj [(''serverContent'',
            JObj [(''modelTurn'', JObj [(''parts'', JArr [JObj [(''text'', JStr ''hi'')]])])])]"

definition turn_complete_message :: json where
  "turn_complete_message = JObj [(''serverContent'', JObj [(''turnComplete'', JBool True)])]"

section \<open>The specification's words\<close>

text \<open>
  The entries of an allow-list value as the specification describes them: split at the
  commas, trim each part, keep the parts that are not empty.
\<close>

definition entries :: "string \<Rightarrow> string list" where
  "entries raw = filter (\<lambda>s. s \<noteq> []) (map trim (split_on (CHR '','') raw))"

text \<open>A text that holds white space only.\<close>

definition blank :: "string \<Rightarrow> bool" where
  "blank s \<longleftrightarrow> strip_start white_space s = []"

text \<open>
  The allow-list as the specification describes it: the wildcard when the variable is
  unset, holds white space only, is the literal \<open>*\<close> or has no entry; otherwise the
  entries.
\<close>

definition allowed_origins_words :: "string option \<Rightarrow> allow_list" where
  "allowed_origins_words v =
     (case v of
        None \<Rightarrow> Wildcard
      | Some raw \<Rightarrow>
          if blank raw \<or> raw = ''*'' \<or> entries raw = [] then Wildcard
          else Origins (entries raw))"

text \<open>
  The same with the value compared with \<open>*\<close> once it is trimmed, which is the first
  thing the code does with it.
\<close>

definition allowed_origins_spec :: "string option \<Rightarrow> allow_list" where
  "allowed_origins_spec v =
     (case v of
        None \<Rightarrow> Wildcard
      | Some raw \<Rightarrow>
          if blank raw \<or> trim raw = ''*'' \<or> entries raw = [] then Wildcard
          else Origins (entries raw))"

text \<open>
  What the proofs about white space need of a list of byte sequences: none is empty,
  none holds a comma, none begins another one.
\<close>

definition code_ok :: "string list \<Rightarrow> bool" where
  "code_ok ws \<longleftrightarrow>
     list_all (\<lambda>v. v \<noteq> [] \<and> CHR '','' \<notin> set v \<and>
                 list_all (\<lambda>w. \<not> prefix v w \<or> v = w) ws) ws"

text \<open>And no sequence, cut after its first byte or later, begins like one of them.\<close>

definition code_tight :: "string list \<Rightarrow> bool" where
  "code_tight ws \<longleftrightarrow>
     list_all (\<lambda>v. list_all (\<lambda>w. list_all (\<lambda>n. \<not> prefix (drop n v) w) [1..<length v]) ws) ws"

text \<open>
  The reactor of the specification (section 4.2): each signal gives its event, a fault, a
  closure and a message that completes the turn give the \<open>end\<close> event after it and
  nothing follows; a cancellation gives no event.
\<close>

fun bridge_spec :: "signal list \<Rightarrow> event list" where
  "bridge_spec [] = []"
| "bridge_spec (SigOpen # sigs) = Open # bridge_spec sigs"
| "bridge_spec (SigMessage m # sigs) =
     Message m # (if turnComplete m then [End (Some (JStr ''turn_complete''))] else bridge_spec sigs)"
| "bridge_spec (SigError e # sigs) = [Error e, End (Some (JStr ''error''))]"
| "bridge_spec (SigClose r # sigs) = [Close r, End (Some (JStr ''closed''))]"
| "bridge_spec (SigAbort # sigs) = bridge_spec sigs"

text \<open>Whether an event is an \<open>end\<close> event.\<close>

definition is_end :: "event \<Rightarrow> bool" where
  "is_end ev = (case ev of End _ \<Rightarrow> True | _ \<Rightarrow> False)"


text \<open>A bridge whose stream is closed or has a \<open>closeWith\<close> on its way to closing it.\<close>

definition finalizing :: "bridge \<Rightarrow> bool" where
  "finalizing b \<longleftrightarrow> closing (writer b) \<or> AfterEndWrite \<in> fst ` set (pending b)"

section \<open>Properties\<close>

lemma drain_done: "pending b = [] \<Longrightarrow> drain b = b"
  by (simp add: drain.simps)

lemma drain_more: "pending b \<noteq> [] \<Longrightarrow> drain b = drain (resume b)"
  by (subst drain.simps) simp

lemmas bridge_defs =
  run_at_once_def run_in_turn_def run_def init_bridge_def onopen_def onmessage_def
  onerror_def onclose_def onabort_def await_write_def await_close_def writer_write_def
  writer_close_def closeWith_def closeWith_close_def resume_def try_session_close_def
  session_close_def failed_def js_truthy_def frame_def

subsection \<open>Turn normalisation\<close>

lemma createGenAI_env_with_key:
  "createGenAI env_with_key = Inr (ApiKeyClient ''test-key'' None)"
  by (simp add: createGenAI_def env_with_key_def or_else_def truthy_def version_opt_def)

text \<open>
  C1. The claim: every input shape gives at least one turn, and an absent or empty input
  gives exactly the default turn, for POST and for GET. For the POST body
  \<open>{"input": []}\<close> the code passes the empty array on: the session is sent no turn.
\<close>

theorem post_empty_array_gives_no_turns:
  "post_turns (Some (JArr [])) = [] \<and>
   session (POST env_with_key (post_request (JObj [(''input'', JArr [])])) Connected)
     = Some (JStr default_model, [])"
  by (simp add: POST_def createGenAI_env_with_key post_request_def destructure_body_def
      get_prop_def model_or_default_def)

text \<open>Every other input shape does give at least one turn.\<close>

lemma post_turns_not_array:
  "(\<And>xs. input \<noteq> Some (JArr xs)) \<Longrightarrow> length (post_turns input) = 1"
  by (cases input rule: post_turns.cases) auto

lemma get_turns_nonempty: "1 \<le> length (get_turns input)"
  by (cases input) (simp_all add: get_turns_def)

text \<open>
  C9. In POST an input that is an array becomes the turn sequence as it is; the empty
  array gives no turn at all, not the default turn, and these are the turns the session
  is sent. GET puts the default turn in the place of an empty input list.
\<close>

theorem post_array_input_unchanged:
  "post_turns (Some (JArr xs)) = xs \<and>
   length (post_turns (Some (JArr []))) = 0 \<and>
   get_turns [] = [''Hello!''] \<and>
   (createGenAI e = Inr ai \<and> json_body req = Some (JObj kvs) \<and>
    get_prop kvs ''input'' = Some (JArr xs) \<longrightarrow>
      session (POST e req Connected) = Some (model_or_default (get_prop kvs ''model''), xs)) \<and>
   (createGenAI e = Inr ai \<and> param_get (query req) ''health'' \<noteq> Some ''1'' \<and>
    param_getAll (query req) ''input'' = [] \<longrightarrow>
      (\<exists>m. session (GET e req probe Connected) = Some (m, [JStr ''Hello!''])))"
  by (simp add: POST_def GET_def destructure_body_def get_turns_def)

theorem post_array_input_unchanged_witness:
  "session (POST env_with_key (post_request (JObj [(''input'', JArr [])])) Connected)
     = Some (JStr default_model, []) \<and>
   (\<exists>m. session (GET env_with_key (get_request []) FetchOk Connected)
     = Some (m, [JStr ''Hello!'']))"
  using post_array_input_unchanged [where xs = "[]" and e = env_with_key
      and ai = "ApiKeyClient ''test-key'' None"
      and req = "post_request (JObj [(''input'', JArr [])])"
      and kvs = "[(''input'', JArr [])]" and probe = FetchOk]
    post_array_input_unchanged [where xs = "[]" and e = env_with_key
      and ai = "ApiKeyClient ''test-key'' None"
      and req = "get_request []" and kvs = "[]" and probe = FetchOk]
  by (simp add: createGenAI_env_with_key post_request_def get_request_def get_prop_def
      model_or_default_def param_get_def param_getAll_def)

subsection \<open>CORS headers\<close>

text \<open>
  C2. The claim: the CORS headers never hold the wildcard origin together with
  \<open>Access-Control-Allow-Credentials: true\<close>. Whenever the allow-list resolves to the
  wildcard and \<open>CORS_ALLOW_CREDENTIALS\<close> is \<open>true\<close>, the code sets both.
\<close>

theorem cors_wildcard_with_credentials:
  "parseAllowedOrigins e = Wildcard \<Longrightarrow> CORS_ALLOW_CREDENTIALS e = Some ''true'' \<Longrightarrow>
   hget (corsHeaders e origin) ''Access-Control-Allow-Origin'' = Some ''*'' \<and>
   hget (corsHeaders e origin) ''Access-Control-Allow-Credentials'' = Some ''true''"
  by (simp add: corsHeaders_def hget_def hset_def lower_char_def)

lemma trim_star: "trim ''*'' = ''*''"
  by code_simp

theorem cors_wildcard_with_credentials_witness:
  "hget (corsHeaders (env_with_key\<lparr>CORS_ALLOW_ORIGINS := Some ''*'', CORS_ALLOW_CREDENTIALS := Some ''true''\<rparr>)
      (Some ''https://app.example.com'')) ''Access-Control-Allow-Origin'' = Some ''*'' \<and>
   hget (corsHeaders (env_with_key\<lparr>CORS_ALLOW_ORIGINS := Some ''*'', CORS_ALLOW_CREDENTIALS := Some ''true''\<rparr>)
      (Some ''https://app.example.com'')) ''Access-Control-Allow-Credentials'' = Some ''true''"
  using cors_wildcard_with_credentials
    [of "env_with_key\<lparr>CORS_ALLOW_ORIGINS := Some ''*'', CORS_ALLOW_CREDENTIALS := Some ''true''\<rparr>"
        "Some ''https://app.example.com''"]
  by (simp add: parseAllowedOrigins_def env_with_key_def trim_star truthy_def)



subsection \<open>The allow-list\<close>

lemma code_ok_white: "code_ok white_space"
  by code_simp

lemma code_ok_white_rev: "code_ok (map rev white_space)"
  by code_simp


lemma code_tight_white: "code_tight white_space"
  by code_simp

lemma code_okD:
  assumes "code_ok ws" and "v \<in> set ws"
  shows "v \<noteq> []" and "CHR '','' \<notin> set v" and "\<And>w. w \<in> set ws \<Longrightarrow> prefix v w \<Longrightarrow> v = w"
  using assms by (auto simp: code_ok_def list_all_iff)

lemma find_code:
  assumes ok: "code_ok ws" and v: "v \<in> set ws" and p: "prefix v s"
  shows "find (\<lambda>w. w \<noteq> [] \<and> prefix w s) ws = Some v"
proof -
  have "v \<noteq> []" using ok v by (rule code_okD)
  with v p have "find (\<lambda>w. w \<noteq> [] \<and> prefix w s) ws \<noteq> None"
    by (auto simp: find_None_iff)
  then obtain u where f: "find (\<lambda>w. w \<noteq> [] \<and> prefix w s) ws = Some u" by auto
  then have u: "u \<in> set ws" and pu: "prefix u s"
    by (auto simp: find_Some_iff)
  have "prefix u v \<or> prefix v u" using prefix_same_cases [OF pu p] by simp
  then have "u = v"
    using code_okD(3) [OF ok u v] code_okD(3) [OF ok v u] by auto
  with f show ?thesis by simp
qed

lemma strip_start_code:
  assumes ok: "code_ok ws" and v: "v \<in> set ws"
  shows "strip_start ws (v @ s) = strip_start ws s"
proof -
  have ne: "v \<noteq> []" using ok v by (rule code_okD)
  then obtain c cs where vs: "v @ s = c # cs" by (cases v) auto
  have "prefix v (c # cs)" using vs [symmetric] by simp
  then have f: "find (\<lambda>w. w \<noteq> [] \<and> prefix w (c # cs)) ws = Some v"
    by (rule find_code [OF ok v])
  have "drop (length v - 1) cs = drop (length v) (c # cs)"
    using ne by (cases v) auto
  also have "\<dots> = s" using vs [symmetric] by simp
  finally show ?thesis using f vs by simp
qed

lemma strip_start_find:
  "find (\<lambda>w. w \<noteq> [] \<and> prefix w (c # cs)) ws = Some v \<Longrightarrow>
   v \<in> set ws \<and> v \<noteq> [] \<and> c # cs = v @ drop (length v - 1) cs"
proof -
  assume "find (\<lambda>w. w \<noteq> [] \<and> prefix w (c # cs)) ws = Some v"
  then have v: "v \<in> set ws" and ne: "v \<noteq> []" and p: "prefix v (c # cs)"
    by (auto simp: find_Some_iff)
  from p obtain r where r: "c # cs = v @ r" by (auto simp: prefix_def)
  then have "drop (length v) (c # cs) = r" by simp
  moreover have "drop (length v - 1) cs = drop (length v) (c # cs)"
    using ne by (cases v) auto
  ultimately show ?thesis using v ne r by simp
qed

lemma strip_start_stripped:
  "strip_start ws s = c # cs \<Longrightarrow> find (\<lambda>w. w \<noteq> [] \<and> prefix w (c # cs)) ws = None"
proof (induction ws s rule: strip_start.induct)
  case (1 ws)
  then show ?case by simp
next
  case (2 ws d ds)
  then show ?case by (auto split: option.splits)
qed

lemma strip_start_Nil_suffix:
  "strip_start ws s = [] \<Longrightarrow> s \<noteq> [] \<Longrightarrow> \<exists>v\<in>set ws. v \<noteq> [] \<and> suffix v s"
proof (induction ws s rule: strip_start.induct)
  case (1 ws)
  then show ?case by simp
next
  case (2 ws d ds)
  show ?case
  proof (cases "find (\<lambda>w. w \<noteq> [] \<and> prefix w (d # ds)) ws")
    case None
    with 2(2) show ?thesis by simp
  next
    case (Some v)
    note f = strip_start_find [OF Some]
    let ?r = "drop (length v - 1) ds"
    show ?thesis
    proof (cases "?r = []")
      case True
      with f have "d # ds = v" by simp
      with f show ?thesis by (auto simp: suffix_def)
    next
      case False
      have "strip_start ws ?r = []" using 2(2) Some by simp
      from 2(1) [OF Some this False] obtain u where u: "u \<in> set ws" "u \<noteq> []" "suffix u ?r"
        by auto
      from u(3) f have "suffix u (d # ds)"
        by (metis suffix_appendI)
      with u show ?thesis by auto
    qed
  qed
qed

lemma code_tightD:
  assumes "code_tight ws" and "v \<in> set ws" and "w \<in> set ws" and "0 < n" and "n < length v"
  shows "\<not> prefix (drop n v) w"
  using assms by (auto simp: code_tight_def list_all_iff)

lemma strip_start_snoc:
  "code_ok ws \<Longrightarrow> code_tight ws \<Longrightarrow> w \<in> set ws \<Longrightarrow>
   strip_start ws (p @ w) = (if strip_start ws p = [] then [] else strip_start ws p @ w)"
proof (induction ws p rule: strip_start.induct)
  case (1 ws)
  have "strip_start ws (w @ []) = strip_start ws []"
    using 1(1,3) by (rule strip_start_code)
  then show ?case by simp
next
  case (2 ws d ds)
  note ok = 2(2) and tight = 2(3) and w = 2(4)
  show ?case
  proof (cases "find (\<lambda>u. u \<noteq> [] \<and> prefix u (d # ds)) ws")
    case None
    have "find (\<lambda>u. u \<noteq> [] \<and> prefix u (d # ds @ w)) ws = None"
    proof (rule ccontr)
      assume "find (\<lambda>u. u \<noteq> [] \<and> prefix u (d # ds @ w)) ws \<noteq> None"
      then obtain v where v: "v \<in> set ws" "v \<noteq> []" "prefix v ((d # ds) @ w)"
        by (auto simp: find_None_iff)
      have np: "\<not> prefix v (d # ds)"
        using None v(1,2) by (auto simp: find_None_iff)
      from v(3) have "prefix v (d # ds) \<or> (\<exists>u. u \<noteq> [] \<and> prefix u w \<and> v = (d # ds) @ u)"
        unfolding prefix_append by (auto simp: prefix_def)
      with np obtain u where u: "u \<noteq> []" "prefix u w" "v = (d # ds) @ u" by blast
      have "drop (length (d # ds)) v = u" using u(3) by simp
      moreover have "0 < length (d # ds)" "length (d # ds) < length v"
        using u(1,3) by auto
      ultimately have "\<not> prefix u w"
        using code_tightD [OF tight v(1) w, of "length (d # ds)"] by simp
      with u(2) show False by simp
    qed
    with None show ?thesis by simp
  next
    case (Some v)
    note f = strip_start_find [OF Some]
    have pv: "prefix v (d # ds)" using Some by (auto simp: find_Some_iff)
    then have "prefix v (d # ds @ w)"
      using prefix_prefix [of v "d # ds" w] by simp
    then have f2: "find (\<lambda>u. u \<noteq> [] \<and> prefix u (d # ds @ w)) ws = Some v"
      using find_code [OF ok] f by blast
    have "length v \<le> length (d # ds)" using pv by (rule prefix_length_le)
    then have "drop (length v - 1) (ds @ w) = drop (length v - 1) ds @ w"
      by simp
    then have "strip_start ws ((d # ds) @ w) = strip_start ws (drop (length v - 1) ds @ w)"
      using f2 by simp
    also have "\<dots> = (if strip_start ws (drop (length v - 1) ds) = [] then []
                     else strip_start ws (drop (length v - 1) ds) @ w)"
      using 2(1) [OF Some ok tight w] .
    finally show ?thesis using Some by simp
  qed
qed

lemma split_on_not_Nil: "split_on d s \<noteq> []"
  by (induction s) (auto split: list.splits)

lemma split_on_append_free:
  "d \<notin> set v \<Longrightarrow> split_on d (v @ s) = (v @ hd (split_on d s)) # tl (split_on d s)"
proof (induction v)
  case Nil
  then show ?case using split_on_not_Nil [of d s] by simp
next
  case (Cons a v)
  then show ?case by auto
qed

lemma split_on_snoc:
  "c \<noteq> d \<Longrightarrow> split_on d (s @ [c]) = butlast (split_on d s) @ [last (split_on d s) @ [c]]"
proof (induction s)
  case Nil
  then show ?case by simp
next
  case (Cons x xs)
  obtain p ps where sp: "split_on d xs = p # ps"
    using split_on_not_Nil [of d xs] by (cases "split_on d xs") auto
  show ?case
    using Cons sp split_on_not_Nil [of d xs] by (auto split: list.splits)
qed

lemma split_on_free_snoc:
  "d \<notin> set v \<Longrightarrow> split_on d (s @ v) = butlast (split_on d s) @ [last (split_on d s) @ v]"
proof (induction v arbitrary: s)
  case Nil
  then show ?case using split_on_not_Nil [of d s] by simp
next
  case (Cons a v)
  have "d \<notin> set v" using Cons(2) by simp
  from Cons(1) [OF this, of "s @ [a]"]
  have "split_on d (s @ a # v) =
          butlast (split_on d (s @ [a])) @ [last (split_on d (s @ [a])) @ v]"
    by simp
  moreover have "a \<noteq> d" using Cons(2) by auto
  ultimately show ?case using split_on_not_Nil [of d s]
    by (simp add: split_on_snoc butlast_append)
qed

lemma white_in: "v \<in> set white_space \<Longrightarrow> rev v \<in> set (map rev white_space)"
  by simp

lemma trim_white_Cons: "v \<in> set white_space \<Longrightarrow> trim (v @ p) = trim p"
  by (simp add: trim_def strip_start_code [OF code_ok_white])

lemma trim_white_snoc:
  assumes v: "v \<in> set white_space"
  shows "trim (p @ v) = trim p"
proof (cases "strip_start white_space p = []")
  case True
  then show ?thesis
    using strip_start_snoc [OF code_ok_white code_tight_white v, of p] by (simp add: trim_def)
next
  case False
  then have "strip_start white_space (p @ v) = strip_start white_space p @ v"
    using strip_start_snoc [OF code_ok_white code_tight_white v, of p] by simp
  moreover have "strip_start (map rev white_space) (rev v @ rev (strip_start white_space p))
                   = strip_start (map rev white_space) (rev (strip_start white_space p))"
    using white_in [OF v] by (rule strip_start_code [OF code_ok_white_rev])
  ultimately show ?thesis by (simp add: trim_def)
qed

lemma entries_white_Cons:
  assumes v: "v \<in> set white_space"
  shows "entries (v @ s) = entries s"
proof -
  have "CHR '','' \<notin> set v" using code_ok_white v by (rule code_okD)
  then have "split_on (CHR '','') (v @ s) =
               (v @ hd (split_on (CHR '','') s)) # tl (split_on (CHR '','') s)"
    by (rule split_on_append_free)
  then have "map trim (split_on (CHR '','') (v @ s)) =
               map trim (hd (split_on (CHR '','') s) # tl (split_on (CHR '','') s))"
    using v by (simp add: trim_white_Cons)
  then show ?thesis using split_on_not_Nil [of "CHR '',''" s] by (simp add: entries_def)
qed

lemma entries_white_snoc:
  assumes v: "v \<in> set white_space"
  shows "entries (s @ v) = entries s"
proof -
  let ?ps = "split_on (CHR '','') s"
  have "CHR '','' \<notin> set v" using code_ok_white v by (rule code_okD)
  then have "split_on (CHR '','') (s @ v) = butlast ?ps @ [last ?ps @ v]"
    by (rule split_on_free_snoc)
  then have "map trim (split_on (CHR '','') (s @ v)) = map trim (butlast ?ps @ [last ?ps])"
    using v by (simp add: trim_white_snoc)
  then show ?thesis using split_on_not_Nil [of "CHR '',''" s] by (simp add: entries_def)
qed

lemma entries_strip_start: "entries (strip_start white_space s) = entries s"
proof (induction white_space s rule: strip_start.induct)
  case 1
  then show ?case by simp
next
  case (2 c cs)
  show ?case
  proof (cases "find (\<lambda>w. w \<noteq> [] \<and> prefix w (c # cs)) white_space")
    case None
    then show ?thesis by simp
  next
    case (Some v)
    note f = strip_start_find [OF Some]
    have "entries (c # cs) = entries (v @ drop (length v - 1) cs)" using f by simp
    also have "\<dots> = entries (drop (length v - 1) cs)"
      using f by (simp add: entries_white_Cons)
    finally show ?thesis using 2 [OF Some] Some by simp
  qed
qed

lemma entries_strip_end:
  "entries (rev (strip_start (map rev white_space) t)) = entries (rev t)"
proof (induction "map rev white_space" t rule: strip_start.induct)
  case 1
  then show ?case by simp
next
  case (2 c cs)
  show ?case
  proof (cases "find (\<lambda>w. w \<noteq> [] \<and> prefix w (c # cs)) (map rev white_space)")
    case None
    then show ?thesis by simp
  next
    case (Some v)
    note f = strip_start_find [OF Some]
    then have "rev v \<in> set white_space" by auto
    then have "entries (rev (drop (length v - 1) cs) @ rev v) = entries (rev (drop (length v - 1) cs))"
      by (rule entries_white_snoc)
    moreover have "rev (c # cs) = rev (drop (length v - 1) cs) @ rev v"
      using f by (metis rev_append)
    ultimately show ?thesis using 2 [OF Some] Some by simp
  qed
qed

lemma entries_trim: "entries (trim s) = entries s"
  using entries_strip_end [of "rev (strip_start white_space s)"]
  by (simp add: trim_def entries_strip_start)

lemma trim_Nil_iff: "trim s = [] \<longleftrightarrow> blank s"
proof
  assume t: "trim s = []"
  show "blank s"
  proof (rule ccontr)
    assume "\<not> blank s"
    then obtain c cs where l: "strip_start white_space s = c # cs"
      by (cases "strip_start white_space s") (auto simp: blank_def)
    from t have "strip_start (map rev white_space) (rev (c # cs)) = []"
      using l by (simp add: trim_def)
    then obtain v where v: "v \<in> set (map rev white_space)" "v \<noteq> []" "suffix v (rev (c # cs))"
      using strip_start_Nil_suffix [of "map rev white_space" "rev (c # cs)"] by auto
    from v(1) obtain x where "x \<in> set white_space" "v = rev x" by auto
    then have "rev v \<in> set white_space" by simp
    moreover have "prefix (rev v) (c # cs)"
      using v(3) by (metis suffix_to_prefix rev_rev_ident)
    ultimately have "find (\<lambda>w. w \<noteq> [] \<and> prefix w (c # cs)) white_space = Some (rev v)"
      by (rule find_code [OF code_ok_white])
    with strip_start_stripped [OF l] show False by simp
  qed
next
  assume "blank s"
  then show "trim s = []" by (simp add: trim_def blank_def)
qed

lemma entries_commas: "entries (replicate n (CHR '','')) = []"
proof -
  have "split_on (CHR '','') (replicate n (CHR '','')) = replicate (Suc n) []"
    by (induction n) simp_all
  then show ?thesis by (simp add: entries_def trim_def)
qed

text \<open>
  C10, as it is written, fails for a \<open>*\<close> with white space around it: the value is not
  the literal \<open>*\<close>, it is not white space only and it has one entry, \<open>*\<close>; the claim
  gives the list of that entry, the code the wildcard.
\<close>

theorem parseAllowedOrigins_padded_star:
  "parseAllowedOrigins (env_with_key\<lparr>CORS_ALLOW_ORIGINS := Some '' * ''\<rparr>) = Wildcard \<and>
   allowed_origins_words (Some '' * '') = Origins [''*'']"
  by code_simp

text \<open>
  C10, amended. \<open>parseAllowedOrigins\<close> gives the wildcard when the variable is unset,
  holds white space only, is \<open>*\<close> once it is trimmed, or has no entry that is not
  empty, and otherwise exactly the trimmed entries that are not empty, in their order. So
  a value of commas only means every origin.
\<close>

theorem parseAllowedOrigins_spec:
  "parseAllowedOrigins e = allowed_origins_spec (CORS_ALLOW_ORIGINS e) \<and>
   (CORS_ALLOW_ORIGINS e = Some (replicate n (CHR '','')) \<longrightarrow> parseAllowedOrigins e = Wildcard)"
proof -
  have main: "parseAllowedOrigins e = allowed_origins_spec (CORS_ALLOW_ORIGINS e)"
  proof (cases "CORS_ALLOW_ORIGINS e")
    case None
    then show ?thesis
      by (simp add: parseAllowedOrigins_def allowed_origins_spec_def truthy_def)
  next
    case (Some raw)
    have "filter (\<lambda>s. s \<noteq> []) (map trim (split_on (CHR '','') (trim raw))) = entries raw"
      using entries_trim [of raw] by (simp add: entries_def)
    then show ?thesis
      using Some trim_Nil_iff [of raw]
      by (auto simp: parseAllowedOrigins_def allowed_origins_spec_def truthy_def Let_def)
  qed
  moreover have "allowed_origins_spec (Some (replicate n (CHR '',''))) = Wildcard"
    by (simp add: allowed_origins_spec_def entries_commas)
  ultimately show ?thesis by simp
qed

theorem parseAllowedOrigins_spec_witness:
  "parseAllowedOrigins (env_with_key\<lparr>CORS_ALLOW_ORIGINS := Some '',,''\<rparr>) = Wildcard \<and>
   parseAllowedOrigins (env_with_key\<lparr>CORS_ALLOW_ORIGINS := Some [CHR 0xC2, CHR 0xA0]\<rparr>) = Wildcard \<and>
   parseAllowedOrigins (env_with_key\<lparr>CORS_ALLOW_ORIGINS := Some '' * ''\<rparr>) = Wildcard \<and>
   parseAllowedOrigins (env_with_key\<lparr>CORS_ALLOW_ORIGINS := Some '' https://a.example , ,https://b.example ''\<rparr>)
     = Origins [''https://a.example'', ''https://b.example'']"
proof -
  have "allowed_origins_spec (Some '',,'') = Wildcard"
    and "allowed_origins_spec (Some [CHR 0xC2, CHR 0xA0]) = Wildcard"
    and "allowed_origins_spec (Some '' * '') = Wildcard"
    and "allowed_origins_spec (Some '' https://a.example , ,https://b.example '')
           = Origins [''https://a.example'', ''https://b.example'']"
    by code_simp+
  then show ?thesis
    using parseAllowedOrigins_spec [of "env_with_key\<lparr>CORS_ALLOW_ORIGINS := Some '',,''\<rparr>" 2]
      parseAllowedOrigins_spec [of "env_with_key\<lparr>CORS_ALLOW_ORIGINS := Some [CHR 0xC2, CHR 0xA0]\<rparr>" 0]
      parseAllowedOrigins_spec [of "env_with_key\<lparr>CORS_ALLOW_ORIGINS := Some '' * ''\<rparr>" 0]
      parseAllowedOrigins_spec [of "env_with_key\<lparr>CORS_ALLOW_ORIGINS := Some '' https://a.example , ,https://b.example ''\<rparr>" 0]
    by (simp add: numeral_2_eq_2)
qed


subsection \<open>Missing credentials\<close>






subsection \<open>Finalising twice\<close>

lemma pending_drain: "pending (drain b) = []"
proof (induction b rule: drain.induct)
  case (1 b)
  then show ?case
    by (cases "pending b = []") (simp_all add: drain_done drain_more)
qed

lemma finalizing_resume: "finalizing b \<Longrightarrow> finalizing (resume b)"
proof (cases "pending b")
  case Nil
  then show "finalizing b \<Longrightarrow> finalizing (resume b)" by (simp add: resume_def)
next
  case (Cons kr rest)
  obtain k r where kr: "kr = (k, r)" by (cases kr)
  assume "finalizing b"
  then show "finalizing (resume b)"
    using Cons kr
    by (cases k)
       (auto simp: finalizing_def resume_def closeWith_def closeWith_close_def await_write_def
          await_close_def writer_write_def writer_close_def try_session_close_def
          session_close_def failed_def js_truthy_def split: if_splits)
qed

lemma finalizing_drain: "finalizing b \<Longrightarrow> finalizing (drain b)"
proof (induction b rule: drain.induct)
  case (1 b)
  then show ?case
    by (cases "pending b = []") (simp_all add: drain_done drain_more finalizing_resume)
qed

lemma finalizing_closeWith: "finalizing (closeWith m b)"
  by (auto simp: finalizing_def closeWith_def closeWith_close_def await_write_def
      await_close_def writer_write_def writer_close_def image_iff split: if_splits)

lemma closing_after_closeWith: "closing (writer (drain (closeWith m b)))"
  using finalizing_drain [OF finalizing_closeWith, of m b] pending_drain [of "closeWith m b"]
  by (simp add: finalizing_def)

lemma closeWith_when_closed:
  assumes "pending b = []" and "closing (writer b)"
  shows "drain (closeWith m b) = b"
proof (cases "js_truthy m")
  case True
  have "drain (closeWith m b) = drain (resume (resume (closeWith m b)))"
    using assms True
    by (simp add: drain_more closeWith_def closeWith_close_def await_write_def await_close_def
        writer_write_def writer_close_def resume_def)
  also have "resume (resume (closeWith m b)) = b"
    using assms True
    by (simp add: closeWith_def closeWith_close_def await_write_def await_close_def
        writer_write_def writer_close_def resume_def)
  finally show ?thesis using assms by (simp add: drain_done)
next
  case False
  have "drain (closeWith m b) = drain (resume (closeWith m b))"
    using assms False
    by (simp add: drain_more closeWith_def closeWith_close_def await_write_def await_close_def
        writer_write_def writer_close_def resume_def)
  also have "resume (closeWith m b) = b"
    using assms False
    by (simp add: closeWith_def closeWith_close_def await_write_def await_close_def
        writer_write_def writer_close_def resume_def)
  finally show ?thesis using assms by (simp add: drain_done)
qed

text \<open>
  C5. Once \<open>closeWith\<close> has run to its end, running it again changes nothing: the
  stream holds the same frames, no callback has failed, the bridge is in the same state.
  The guarded \<open>session.close()\<close> on a closed handle changes nothing either, whether the
  SDK throws there or not.
\<close>

theorem closeWith_twice:
  "drain (closeWith m2 (drain (closeWith m1 b))) = drain (closeWith m1 b) \<and>
   try_session_close (b\<lparr>session_closed := True\<rparr>) = b\<lparr>session_closed := True\<rparr>"
  by (simp add: closeWith_when_closed pending_drain closing_after_closeWith
      try_session_close_def session_close_def)


subsection \<open>A fault, then a closure\<close>

lemma run_append: "run (xs @ ys) b = run ys (run xs b)"
  by (simp add: run_def)

lemma run_Cons: "run (a # xs) b = run xs (step b a)"
  by (simp add: run_def)

lemma run_Nil: "run [] b = b"
  by (simp add: run_def)

lemma resume_idle: "pending b = [] \<Longrightarrow> resume b = b"
  by (simp add: resume_def)

lemma run_resumes_idle: "pending b = [] \<Longrightarrow> run (replicate n Resume) b = b"
  by (induction n) (simp_all add: run_Nil run_Cons resume_idle)

lemma run_resumes_Suc: "run (replicate (Suc n) Resume) b = run (replicate n Resume) (resume b)"
  by (simp add: run_Cons)

lemmas sched_defs =
  init_bridge_def onopen_def onmessage_def
  onerror_def onclose_def onabort_def await_write_def await_close_def writer_write_def
  writer_close_def closeWith_def closeWith_close_def resume_def try_session_close_def
  session_close_def failed_def js_truthy_def frame_def

lemma after_open:
  "run (replicate i Resume @ Deliver SigOpen # replicate j Resume @ acts) (init_bridge strict)
   = run acts (if j = 0 then onopen (init_bridge strict) else resume (onopen (init_bridge strict)))"
proof (cases j)
  case 0
  then show ?thesis
    by (simp add: run_append run_Cons run_resumes_idle init_bridge_def)
next
  case (Suc j')
  have "pending (resume (onopen (init_bridge strict))) = []"
    by (simp add: sched_defs)
  then show ?thesis
    using Suc
    by (simp add: run_append run_Cons run_resumes_idle init_bridge_def del: replicate.simps
         add: run_resumes_Suc)
qed

lemma fault_then_close_early:
  assumes "j = 0" and "k = Suc (Suc (Suc k'))"
  shows "chunks (writer (drain (run
              (replicate i Resume @ Deliver SigOpen # replicate j Resume @
               Deliver (SigError e) # replicate k Resume @ [Deliver (SigClose r)])
              (init_bridge strict))))
         = map frame [Open, Error e, End (Some (JStr ''error''))]"
proof (cases k')
  case 0
  then show ?thesis
    unfolding after_open using assms
    by (simp add: run_Cons run_Nil run_append sched_defs drain_done drain_more)
next
  case (Suc k'')
  have idle: "\<And>b. pending b = [] \<Longrightarrow> run (replicate k'' Resume) b = b"
    by (rule run_resumes_idle)
  show ?thesis
    unfolding after_open
    using Suc assms
    by (simp add: run_Cons run_Nil run_append sched_defs drain_done drain_more idle)
qed

lemma fault_then_close_late:
  assumes "j \<noteq> 0" and "k = Suc (Suc k')"
  shows "chunks (writer (drain (run
              (replicate i Resume @ Deliver SigOpen # replicate j Resume @
               Deliver (SigError e) # replicate k Resume @ [Deliver (SigClose r)])
              (init_bridge strict))))
         = map frame [Open, Error e, End (Some (JStr ''error''))]"
proof (cases k')
  case 0
  then show ?thesis
    unfolding after_open using assms
    by (simp add: run_Cons run_Nil run_append sched_defs drain_done drain_more)
next
  case (Suc k'')
  have idle: "\<And>b. pending b = [] \<Longrightarrow> run (replicate k'' Resume) b = b"
    by (rule run_resumes_idle)
  show ?thesis
    unfolding after_open
    using Suc assms
    by (simp add: run_Cons run_Nil run_append sched_defs drain_done drain_more idle)
qed

lemma fault_then_close_in_turn:
  "chunks (writer (run_in_turn [SigOpen, SigError e, SigClose r] (init_bridge strict)))
     = map frame [Open, Error e, End (Some (JStr ''error''))]"
  by (simp add: bridge_defs drain_done drain_more)

text \<open>
  C3. The claim: after open, a fault and then a closure give exactly the frames
  \<open>open, error, close, end\<close>. When the closure arrives after the callback of the fault
  has ended, the stream is closed by then and no \<open>close\<close> frame is written.
\<close>

theorem fault_then_close_counterexample:
  "chunks (writer (run_in_turn [SigOpen, SigError ''boom'', SigClose ''error''] (init_bridge False)))
     = map frame [Open, Error ''boom'', End (Some (JStr ''error''))] \<and>
   map event_type [Open, Error ''boom'', End (Some (JStr ''error''))]
     \<noteq> [''open'', ''error'', ''close'', ''end'']"
  by (simp add: bridge_defs drain_done drain_more event_type_def)

text \<open>
  C3, amended. When the closure arrives after the callback of the fault has closed the
  stream, the frames are exactly \<open>open, error, end\<close> and the message of the \<open>end\<close>
  frame is \<open>error\<close>. That is so when each signal comes after the callbacks before it
  have ended, and in every schedule that leaves the callback of the fault its
  resumptions: \<open>i\<close>, \<open>j\<close> and \<open>k\<close> count the resumptions before the open, between the
  open and the fault, and between the fault and the closure; the callback of the fault
  closes the stream at its second resumption, which is the third of the queue when
  the callback of the open is still suspended at the fault (\<open>j = 0\<close>).
\<close>

theorem fault_then_close_frames:
  assumes "(if j = 0 then 3 else 2) \<le> k"
  shows "chunks (writer (drain (run
              (replicate i Resume @ Deliver SigOpen # replicate j Resume @
               Deliver (SigError e) # replicate k Resume @ [Deliver (SigClose r)])
              (init_bridge strict))))
           = map frame [Open, Error e, End (Some (JStr ''error''))] \<and>
         chunks (writer (run_in_turn [SigOpen, SigError e, SigClose r] (init_bridge strict)))
           = map frame [Open, Error e, End (Some (JStr ''error''))] \<and>
         map event_type [Open, Error e, End (Some (JStr ''error''))]
           = [''open'', ''error'', ''end'']"
proof -
  have types: "map event_type [Open, Error e, End (Some (JStr ''error''))]
                 = [''open'', ''error'', ''end'']"
    by (simp add: event_type_def)
  have sched: "chunks (writer (drain (run
              (replicate i Resume @ Deliver SigOpen # replicate j Resume @
               Deliver (SigError e) # replicate k Resume @ [Deliver (SigClose r)])
              (init_bridge strict))))
           = map frame [Open, Error e, End (Some (JStr ''error''))]"
  proof (cases "j = 0")
    case True
    with assms have "k = Suc (Suc (Suc (k - 3)))" by simp
    with True show ?thesis by (rule fault_then_close_early)
  next
    case False
    with assms have "k = Suc (Suc (k - 2))" by simp
    with False show ?thesis by (rule fault_then_close_late)
  qed
  from sched fault_then_close_in_turn types show ?thesis
    by (rule conjI [OF _ conjI])
qed

theorem fault_then_close_frames_witness:
  "chunks (writer (drain (run
      [Deliver SigOpen, Deliver (SigError ''boom''), Resume, Resume, Resume,
       Deliver (SigClose ''error'')]
      (init_bridge False))))
   = map frame [Open, Error ''boom'', End (Some (JStr ''error''))] \<and>
   chunks (writer (drain (run
      [Deliver SigOpen, Resume, Deliver (SigError ''boom''), Resume, Resume,
       Deliver (SigClose ''error'')]
      (init_bridge False))))
   = map frame [Open, Error ''boom'', End (Some (JStr ''error''))] \<and>
   chunks (writer (run_in_turn [SigOpen, SigError ''boom'', SigClose ''error''] (init_bridge False)))
   = map frame [Open, Error ''boom'', End (Some (JStr ''error''))]"
  using fault_then_close_frames [where j = 0 and k = 3 and i = 0 and e = "''boom''"
      and r = "''error''" and strict = False]
    fault_then_close_frames [where j = 1 and k = 2 and i = 0 and e = "''boom''"
      and r = "''error''" and strict = False]
  by (simp add: numeral_3_eq_3 numeral_2_eq_2)


subsection \<open>Frames after the end frame\<close>

text \<open>
  C4. The claim: after an \<open>end\<close> frame nothing more is written, and there is at most one
  \<open>end\<close> frame. The simulated session of the tests calls \<open>onopen\<close>, \<open>onmessage\<close>
  twice (the second message with \<open>turnComplete\<close>) and \<open>onclose\<close> one after the other;
  the stream then ends with two \<open>end\<close> frames.
\<close>

theorem turn_complete_then_close_two_ends:
  "chunks (writer (run_at_once
      [SigOpen, SigMessage spoken_message, SigMessage turn_complete_message, SigClose ''done'']
      (init_bridge False)))
   = map frame [Open, Message spoken_message, Message turn_complete_message, Close ''done'',
       End (Some (JStr ''turn_complete'')), End (Some (JStr ''closed''))]"
  by (simp add: bridge_defs drain_done drain_more turnComplete_def get_prop_def
      spoken_message_def turn_complete_message_def)

subsection \<open>The frames\<close>

lemma of_char_digit_char: "(of_char (digit_char n) :: nat) = 48 + n mod 10"
proof -
  have "48 + n mod 10 < 256"
    using mod_less_divisor [of 10 n] by linarith
  then show ?thesis
    by (simp add: digit_char_def)
qed

lemma is_digit_digit_char: "is_digit (digit_char n)"
  using mod_less_divisor [of 10 n] by (simp add: is_digit_def of_char_digit_char)

lemma digit_val_digit_char: "digit_val (digit_char n) = n mod 10"
  by (simp add: digit_val_def of_char_digit_char)

lemma show_nat_digits: "\<forall>c\<in>set (show_nat n). is_digit c"
proof (induction n rule: show_nat.induct)
  case (1 n)
  show ?case
  proof (cases "n < 10")
    case True
    then show ?thesis by (subst show_nat.simps) (simp add: is_digit_digit_char)
  next
    case False
    with 1 show ?thesis by (subst show_nat.simps) (simp add: is_digit_digit_char)
  qed
qed

lemma show_nat_not_Nil: "show_nat n \<noteq> []"
  by (subst show_nat.simps) simp

lemma newline_not_digit: "\<not> is_digit newline"
  by (simp add: is_digit_def newline_def)

lemma newline_notin_show_nat: "newline \<notin> set (show_nat n)"
  using show_nat_digits [of n] newline_not_digit by blast

lemma newline_notin_show_int: "newline \<notin> set (show_int i)"
proof -
  have "newline \<noteq> CHR ''-''"
    by (simp add: newline_def)
  then show ?thesis
    by (simp add: show_int_def newline_notin_show_nat)
qed

lemma hex_digit_in: "hex_digit n \<in> set ''0123456789abcdef''"
  unfolding hex_digit_def by (rule nth_mem) simp

lemma newline_not_hex: "hex_digit n \<noteq> newline"
  using hex_digit_in [of n] by (auto simp: newline_def)

lemma newline_notin_escape: "newline \<notin> set (escape_char c)"
  using newline_not_hex [of "of_char c div 16"] newline_not_hex [of "of_char c"]
  by (auto simp: escape_char_def newline_def dquote_def backslash_def)

lemma newline_notin_quote: "newline \<notin> set (quote s)"
  using newline_notin_escape by (auto simp: quote_def) (simp add: newline_def dquote_def)

lemma newline_notin_stringify:
  "newline \<notin> set (stringify v)"
  "newline \<notin> set (stringify_elems xs)"
  "newline \<notin> set (stringify_members kvs)"
proof (induction v and xs and kvs rule: stringify_stringify_elems_stringify_members.induct)
  case (3 i)
  then show ?case by (simp add: newline_notin_show_int)
next
  case (4 s)
  then show ?case by (simp add: newline_notin_quote)
qed (simp_all add: newline_notin_quote, simp_all add: newline_def)

lemma count_nn_terminator:
  "newline \<notin> set xs \<Longrightarrow> count_nn (xs @ [newline, newline]) = 1"
proof (induction xs)
  case Nil
  then show ?case by simp
next
  case (Cons a xs)
  then show ?case by (cases xs) auto
qed

text \<open>
  C8. The serialisation of an event holds no line feed at all, so the frame holds
  \<open>\n\n\<close> exactly once, as its last two characters. The same holds for whatever JSON
  value \<open>sseEvent\<close> is given.
\<close>

theorem frame_has_one_terminator:
  "newline \<notin> set (stringify (json_of_event ev)) \<and>
   count_nn (frame ev) = 1 \<and>
   drop (length (frame ev) - 2) (frame ev) = [newline, newline] \<and>
   (\<forall>d. count_nn (sseEvent d) = 1)"
proof -
  have data: "newline \<notin> set ''data: ''"
    by (simp add: newline_def)
  have one: "count_nn (sseEvent d) = 1" for d
    using count_nn_terminator [of "''data: '' @ stringify d"] data newline_notin_stringify(1) [of d]
    by (simp add: sseEvent_def del: count_nn.simps)
  show ?thesis
    using one by (simp add: newline_notin_stringify frame_def) (simp add: sseEvent_def)
qed

subsection \<open>Reading a frame back\<close>

lemma below_16:
  "(j::nat) < 16 \<Longrightarrow>
   j = 0 \<or> j = 1 \<or> j = 2 \<or> j = 3 \<or> j = 4 \<or> j = 5 \<or> j = 6 \<or> j = 7 \<or>
   j = 8 \<or> j = 9 \<or> j = 10 \<or> j = 11 \<or> j = 12 \<or> j = 13 \<or> j = 14 \<or> j = 15"
  by arith

lemma hex_val_hex_digit: "hex_val (hex_digit k) = Some (k mod 16)"
proof -
  have "k mod 16 < 16" by simp
  from below_16 [OF this] show ?thesis
    by (elim disjE) (simp_all add: hex_digit_def hex_val_def)
qed

lemma hex_val_zero: "hex_val (CHR ''0'') = Some 0"
  by (simp add: hex_val_def)

lemma unhex4_control:
  assumes "(of_char c :: nat) < 0x20"
  shows "unhex4 (CHR ''0'') (CHR ''0'') (hex_digit ((of_char c :: nat) div 16)) (hex_digit (of_char c))
         = Some [c]"
proof -
  let ?n = "of_char c :: nat"
  have d: "?n div 16 mod 16 = ?n div 16"
    using assms by simp
  have "(?n div 16) * 16 + ?n mod 16 = ?n"
    by simp
  moreover have "?n < 0x80"
    using assms by simp
  ultimately show ?thesis
    by (simp add: unhex4_def hex_val_hex_digit hex_val_zero d utf8_def)
qed

lemma parse_string_escape:
  "parse_string (escape_char c @ rest) =
     (case parse_string rest of None \<Rightarrow> None | Some (str, r) \<Rightarrow> Some (c # str, r))"
proof -
  consider (q) "c = dquote" | (b) "c = backslash"
    | (s) "c \<in> {CHR 0x08, CHR 0x09, CHR 0x0A, CHR 0x0C, CHR 0x0D}"
    | (u) "c \<noteq> dquote" "c \<noteq> backslash"
          "c \<notin> {CHR 0x08, CHR 0x09, CHR 0x0A, CHR 0x0C, CHR 0x0D}" "(of_char c :: nat) < 0x20"
    | (l) "c \<noteq> dquote" "c \<noteq> backslash" "\<not> (of_char c :: nat) < 0x20"
    by auto
  then show ?thesis
  proof cases
    case q
    then show ?thesis
      by (auto simp: escape_char_def unescape_def dquote_def backslash_def split: option.splits)
  next
    case b
    then show ?thesis
      by (auto simp: escape_char_def unescape_def dquote_def backslash_def split: option.splits)
  next
    case s
    then show ?thesis
      by (auto simp: escape_char_def unescape_def dquote_def backslash_def split: option.splits)
  next
    case u
    have "escape_char c = [backslash, CHR ''u'', CHR ''0'', CHR ''0'',
              hex_digit ((of_char c :: nat) div 16), hex_digit (of_char c)]"
      using u by (simp add: escape_char_def)
    then show ?thesis
      using unhex4_control [OF u(4)]
      by (simp add: dquote_def backslash_def split: option.splits)
  next
    case l
    have "escape_char c = [c]"
      using l by (auto simp: escape_char_def)
    then show ?thesis
      using l by (simp split: option.splits)
  qed
qed

lemma parse_string_quoted:
  "parse_string (concat (map escape_char s) @ dquote # r) = Some (s, r)"
  by (induction s) (simp_all add: parse_string_escape)

lemma show_nat_small: "n < 10 \<Longrightarrow> show_nat n = [digit_char n]"
  by (subst show_nat.simps) simp

lemma show_nat_large: "\<not> n < 10 \<Longrightarrow> show_nat n = show_nat (n div 10) @ [digit_char n]"
  by (subst show_nat.simps) simp

lemma digits_value_snoc: "digits_value (ds @ [d]) = 10 * digits_value ds + digit_val d"
  by (simp add: digits_value_def)

lemma digits_value_show_nat: "digits_value (show_nat n) = n"
proof (induction n rule: show_nat.induct)
  case (1 n)
  show ?case
  proof (cases "n < 10")
    case True
    then show ?thesis
      by (simp add: show_nat_small digits_value_def digit_val_digit_char)
  next
    case False
    with 1 show ?thesis
      by (simp add: show_nat_large digits_value_snoc digit_val_digit_char)
  qed
qed

lemma hd_show_nat: "0 < n \<Longrightarrow> hd (show_nat n) \<noteq> CHR ''0''"
proof (induction n rule: show_nat.induct)
  case (1 n)
  show ?case
  proof (cases "n < 10")
    case True
    have "(of_char (digit_char n) :: nat) \<noteq> of_char (CHR ''0'')"
      using True "1.prems" by (simp add: of_char_digit_char)
    then show ?thesis
      using True by (auto simp: show_nat_small)
  next
    case False
    then have "0 < n div 10" by simp
    with 1 False show ?thesis
      by (simp add: show_nat_large show_nat_not_Nil)
  qed
qed

lemma digit_char_zero: "digit_char 0 = CHR ''0''"
proof -
  have "(of_char (digit_char 0) :: nat) = of_char (CHR ''0'')"
    by (simp add: of_char_digit_char)
  then show ?thesis
    by (simp only: of_char_eq_iff)
qed

lemma show_nat_zero: "show_nat 0 = ''0''"
  by (simp add: show_nat_small digit_char_zero)

lemma parse_nat_show_nat:
  assumes "number_ends r"
  shows "parse_nat (show_nat n @ r) = Some (n, r)"
proof -
  have nd: "r \<noteq> [] \<Longrightarrow> \<not> is_digit (hd r)"
    using assms by (auto simp: number_ends_def is_digit_def)
  have tw: "takeWhile is_digit (show_nat n @ r) = show_nat n"
  proof (cases r)
    case Nil
    then show ?thesis using show_nat_digits [of n] by simp
  next
    case (Cons a as)
    then show ?thesis using show_nat_digits [of n] nd by (simp add: takeWhile_append2)
  qed
  have dw: "dropWhile is_digit (show_nat n @ r) = r"
  proof (cases r)
    case Nil
    then show ?thesis using show_nat_digits [of n] by simp
  next
    case (Cons a as)
    then show ?thesis using show_nat_digits [of n] nd by (simp add: dropWhile_append2)
  qed
  have lead: "\<not> (hd (show_nat n) = CHR ''0'' \<and> length (show_nat n) > 1)"
  proof (cases "n = 0")
    case True
    then show ?thesis by (simp add: show_nat_zero)
  next
    case False
    then show ?thesis using hd_show_nat [of n] by simp
  qed
  have cont: "\<not> (r \<noteq> [] \<and> hd r \<in> {CHR ''.'', CHR ''e'', CHR ''E''})"
    using assms by (auto simp: number_ends_def)
  show ?thesis
    unfolding parse_nat_def Let_def tw dw
    using lead cont show_nat_not_Nil [of n] by (simp add: digits_value_show_nat)
qed

lemma hd_show_nat_digit: "is_digit (hd (show_nat n))"
  using show_nat_digits [of n] show_nat_not_Nil [of n] by (cases "show_nat n") auto

lemma parse_number_show_int:
  assumes "number_ends r"
  shows "parse_number (show_int i @ r) = Some (i, r)"
proof (cases "i < 0")
  case True
  then show ?thesis
    using parse_nat_show_nat [OF assms, of "nat (- i)"]
    by (simp add: parse_number_def show_int_def)
next
  case False
  obtain c cs where sn: "show_nat (nat i) = c # cs"
    using show_nat_not_Nil [of "nat i"] by (cases "show_nat (nat i)") auto
  have "is_digit c"
    using hd_show_nat_digit [of "nat i"] sn by simp
  then have "c \<noteq> CHR ''-''"
    by (auto simp: is_digit_def)
  then show ?thesis
    using False parse_nat_show_nat [OF assms, of "nat i"] sn
    by (simp add: parse_number_def show_int_def)
qed

lemma digit_value_start: "is_digit c \<Longrightarrow> value_start c"
  by (auto simp: is_digit_def value_start_def is_json_ws_def)

lemma quote_Cons: "quote s = dquote # concat (map escape_char s) @ [dquote]"
  by (simp add: quote_def)

lemma stringify_start: "\<exists>c cs. stringify v = c # cs \<and> value_start c"
proof (cases v)
  case (JNum i)
  obtain c cs where sn: "show_nat (nat (if i < 0 then - i else i)) = c # cs"
    using show_nat_not_Nil by (metis list.exhaust)
  have "is_digit c"
    using hd_show_nat_digit [of "nat (if i < 0 then - i else i)"] sn by simp
  then show ?thesis
    using JNum sn digit_value_start [of c]
    by (auto simp: show_int_def value_start_def is_json_ws_def)
qed (auto simp: value_start_def is_json_ws_def quote_def dquote_def)

lemma skip_ws_start: "value_start c \<Longrightarrow> skip_ws (c # cs) = c # cs"
  by (simp add: skip_ws_def value_start_def)

lemma skip_ws_punct:
  "skip_ws (CHR '','' # r) = CHR '','' # r"
  "skip_ws (CHR '']'' # r) = CHR '']'' # r"
  "skip_ws (CHR ''}'' # r) = CHR ''}'' # r"
  "skip_ws (CHR '':'' # r) = CHR '':'' # r"
  "skip_ws (dquote # r) = dquote # r"
  by (simp_all add: skip_ws_def is_json_ws_def dquote_def)

lemma put_member_new: "fst kv \<notin> fst ` set acc \<Longrightarrow> put_member kv acc = acc @ [kv]"
  by (induction acc) auto

lemma foldl_put_member:
  "distinct (map fst (acc @ kvs)) \<Longrightarrow> foldl (\<lambda>a kv. put_member kv a) acc kvs = acc @ kvs"
proof (induction kvs arbitrary: acc)
  case Nil
  then show ?case by simp
next
  case (Cons kv kvs)
  from Cons.prems have new: "fst kv \<notin> fst ` set acc"
    by auto
  from Cons.prems have "distinct (map fst ((acc @ [kv]) @ kvs))"
    by simp
  from Cons.IH [OF this] show ?case
    by (simp add: put_member_new [OF new])
qed

lemma object_of_distinct: "distinct (map fst kvs) \<Longrightarrow> object_of kvs = JObj kvs"
  using foldl_put_member [of "[]" kvs] by (simp add: object_of_def)

lemma members_start:
  "kvs \<noteq> [] \<Longrightarrow> \<exists>cs. stringify_members kvs = dquote # cs"
proof (cases kvs)
  case Nil
  assume "kvs \<noteq> []"
  with Nil show ?thesis by simp
next
  case (Cons kv rest)
  obtain k v where kv: "kv = (k, v)" by (cases kv)
  show ?thesis
    using Cons kv by (cases rest) (simp_all add: quote_def)
qed

lemma elems_start:
  "xs \<noteq> [] \<Longrightarrow> \<exists>c cs. stringify_elems xs = c # cs \<and> value_start c"
proof (cases xs)
  case Nil
  assume "xs \<noteq> []"
  with Nil show ?thesis by simp
next
  case (Cons x rest)
  obtain c cs where "stringify x = c # cs" "value_start c"
    using stringify_start [of x] by blast
  then show ?thesis
    using Cons by (cases rest) simp_all
qed

lemma number_ends_punct:
  "number_ends []" "number_ends (CHR '','' # r)" "number_ends (CHR '']'' # r)"
  "number_ends (CHR ''}'' # r)"
  by (simp_all add: number_ends_def)

lemma parse_value_atom:
  assumes "number_ends r"
  shows "parse_value (Suc n) (''null'' @ r) = Some (JNull, r)"
    and "parse_value (Suc n) (''true'' @ r) = Some (JBool True, r)"
    and "parse_value (Suc n) (''false'' @ r) = Some (JBool False, r)"
    and "parse_value (Suc n) (show_int i @ r) = Some (JNum i, r)"
    and "parse_value (Suc n) (quote s @ r) = Some (JStr s, r)"
proof -
  show "parse_value (Suc n) (''null'' @ r) = Some (JNull, r)"
    by (simp add: skip_ws_def is_json_ws_def)
  show "parse_value (Suc n) (''true'' @ r) = Some (JBool True, r)"
    by (simp add: skip_ws_def is_json_ws_def)
  show "parse_value (Suc n) (''false'' @ r) = Some (JBool False, r)"
    by (simp add: skip_ws_def is_json_ws_def)
  show "parse_value (Suc n) (quote s @ r) = Some (JStr s, r)"
    by (simp add: quote_def skip_ws_punct parse_string_quoted) (simp add: dquote_def)
  obtain c cs where si: "show_int i = c # cs" and dc: "c = CHR ''-'' \<or> is_digit c"
  proof (cases "i < 0")
    case True
    then show ?thesis using that by (simp add: show_int_def)
  next
    case False
    obtain c cs where sn: "show_nat (nat i) = c # cs"
      using show_nat_not_Nil by (metis list.exhaust)
    then have "is_digit c"
      using hd_show_nat_digit [of "nat i"] by simp
    with sn False show ?thesis using that by (simp add: show_int_def)
  qed
  have vs: "value_start c"
    using dc digit_value_start by (auto simp: value_start_def is_json_ws_def)
  have nc: "c \<noteq> CHR ''n''" "c \<noteq> CHR ''t''" "c \<noteq> CHR ''f''" "c \<noteq> dquote"
    "c \<noteq> CHR ''[''" "c \<noteq> CHR ''{''"
    using dc by (auto simp: is_digit_def dquote_def)
  have "parse_number (c # cs @ r) = Some (i, r)"
    using parse_number_show_int [OF assms, of i] si by simp
  then show "parse_value (Suc n) (show_int i @ r) = Some (JNum i, r)"
    using nc by (simp add: si skip_ws_start [OF vs])
qed

lemma skip_ws_open:
  "skip_ws (CHR ''['' # r) = CHR ''['' # r"
  "skip_ws (CHR ''{'' # r) = CHR ''{'' # r"
  by (simp_all add: skip_ws_def is_json_ws_def)

lemma parse_value_array:
  assumes elems: "xs \<noteq> [] \<Longrightarrow> parse_elems n (stringify_elems xs @ CHR '']'' # r) = Some (xs, r)"
  shows "parse_value (Suc n) (stringify (JArr xs) @ r) = Some (JArr xs, r)"
proof (cases "xs = []")
  case True
  then show ?thesis
    by (simp add: skip_ws_open skip_ws_punct dquote_def)
next
  case False
  obtain c cs where st: "stringify_elems xs = c # cs" and vs: "value_start c"
    using elems_start [OF False] by blast
  have "c \<noteq> CHR '']''"
    using vs by (simp add: value_start_def)
  moreover have "parse_elems n (c # cs @ CHR '']'' # r) = Some (xs, r)"
    using elems [OF False] st by simp
  ultimately show ?thesis
    by (simp add: st skip_ws_start [OF vs] skip_ws_open dquote_def)
qed

lemma parse_value_object:
  assumes members:
    "kvs \<noteq> [] \<Longrightarrow> parse_members n (stringify_members kvs @ CHR ''}'' # r) = Some (kvs, r)"
    and "distinct (map fst kvs)"
  shows "parse_value (Suc n) (stringify (JObj kvs) @ r) = Some (JObj kvs, r)"
proof (cases "kvs = []")
  case True
  then show ?thesis
    by (simp add: skip_ws_open skip_ws_punct dquote_def)
next
  case False
  obtain cs where st: "stringify_members kvs = dquote # cs"
    using members_start [OF False] by blast
  have ne: "dquote \<noteq> CHR ''}''" "CHR ''{'' \<noteq> dquote"
    by (simp_all add: dquote_def)
  have pm: "parse_members n (dquote # cs @ CHR ''}'' # r) = Some (kvs, r)"
    using members [OF False] st by simp
  show ?thesis
    using ne pm object_of_distinct [OF assms(2)]
    by (simp add: st skip_ws_punct skip_ws_open)
qed

lemma parse_elems_last:
  assumes "parse_value n (stringify x @ CHR '']'' # r) = Some (x, CHR '']'' # r)"
  shows "parse_elems (Suc n) (stringify_elems [x] @ CHR '']'' # r) = Some ([x], r)"
  using assms by (simp add: skip_ws_punct)

lemma parse_elems_more:
  assumes "parse_value n (stringify x @ CHR '','' # stringify_elems (y # ys) @ CHR '']'' # r)
           = Some (x, CHR '','' # stringify_elems (y # ys) @ CHR '']'' # r)"
    and "parse_elems n (stringify_elems (y # ys) @ CHR '']'' # r) = Some (y # ys, r)"
  shows "parse_elems (Suc n) (stringify_elems (x # y # ys) @ CHR '']'' # r) = Some (x # y # ys, r)"
  using assms by (simp add: skip_ws_punct)

lemma parse_members_last:
  assumes "parse_value n (stringify v @ CHR ''}'' # r) = Some (v, CHR ''}'' # r)"
  shows "parse_members (Suc n) (stringify_members [(k, v)] @ CHR ''}'' # r) = Some ([(k, v)], r)"
proof -
  have "parse_string (concat (map escape_char k) @ dquote # CHR '':'' # stringify v @ CHR ''}'' # r)
        = Some (k, CHR '':'' # stringify v @ CHR ''}'' # r)"
    by (rule parse_string_quoted)
  then show ?thesis
    using assms by (simp add: quote_def skip_ws_punct)
qed

lemma parse_members_more:
  assumes "parse_value n (stringify v @ CHR '','' # stringify_members (kv # kvs) @ CHR ''}'' # r)
           = Some (v, CHR '','' # stringify_members (kv # kvs) @ CHR ''}'' # r)"
    and "parse_members n (stringify_members (kv # kvs) @ CHR ''}'' # r) = Some (kv # kvs, r)"
  shows "parse_members (Suc n) (stringify_members ((k, v) # kv # kvs) @ CHR ''}'' # r)
         = Some ((k, v) # kv # kvs, r)"
proof -
  have "parse_string (concat (map escape_char k) @ dquote # CHR '':'' # stringify v @
          CHR '','' # stringify_members (kv # kvs) @ CHR ''}'' # r)
        = Some (k, CHR '':'' # stringify v @ CHR '','' # stringify_members (kv # kvs) @ CHR ''}'' # r)"
    by (rule parse_string_quoted)
  then show ?thesis
    using assms by (simp add: quote_def skip_ws_punct)
qed

lemma parse_stringify:
  "wf_json v \<Longrightarrow> need v \<le> n \<Longrightarrow> number_ends r \<Longrightarrow>
     parse_value n (stringify v @ r) = Some (v, r)"
  "xs \<noteq> [] \<Longrightarrow> wf_elems xs \<Longrightarrow> need_elems xs \<le> n \<Longrightarrow>
     parse_elems n (stringify_elems xs @ CHR '']'' # r) = Some (xs, r)"
  "kvs \<noteq> [] \<Longrightarrow> wf_members kvs \<Longrightarrow> need_members kvs \<le> n \<Longrightarrow>
     parse_members n (stringify_members kvs @ CHR ''}'' # r) = Some (kvs, r)"
proof (induction v and xs and kvs arbitrary: n r and n r and n r
    rule: stringify_stringify_elems_stringify_members.induct)
  case 1
  then obtain m where "n = Suc m" by (cases n) auto
  with 1 show ?case using parse_value_atom(1) by simp
next
  case (2 b)
  then obtain m where "n = Suc m" by (cases n) auto
  with 2 show ?case using parse_value_atom(2,3) by (cases b) simp_all
next
  case (3 i)
  then obtain m where "n = Suc m" by (cases n) auto
  with 3 show ?case using parse_value_atom(4) by simp
next
  case (4 s)
  then obtain m where "n = Suc m" by (cases n) auto
  with 4 show ?case using parse_value_atom(5) by simp
next
  case (5 xs)
  then obtain m where n: "n = Suc m" and m: "need_elems xs \<le> m" by (cases n) auto
  have "xs \<noteq> [] \<Longrightarrow> parse_elems m (stringify_elems xs @ CHR '']'' # r) = Some (xs, r)"
    using "5.IH" "5.prems"(1) m by simp
  then show ?case
    unfolding n by (rule parse_value_array)
next
  case (6 kvs)
  then obtain m where n: "n = Suc m" and m: "need_members kvs \<le> m" by (cases n) auto
  have "kvs \<noteq> [] \<Longrightarrow> parse_members m (stringify_members kvs @ CHR ''}'' # r) = Some (kvs, r)"
    using "6.IH" "6.prems"(1) m by simp
  moreover have "distinct (map fst kvs)"
    using "6.prems"(1) by simp
  ultimately show ?case
    unfolding n by (rule parse_value_object)
next
  case 7
  then show ?case by simp
next
  case (8 x)
  then obtain m where n: "n = Suc m" and m: "need x \<le> m" by (cases n) auto
  have "parse_value m (stringify x @ CHR '']'' # r) = Some (x, CHR '']'' # r)"
    using "8.IH" "8.prems"(2) m by (simp add: number_ends_punct)
  then show ?case
    unfolding n by (rule parse_elems_last)
next
  case (9 x y ys)
  then obtain m where n: "n = Suc m" and m: "need x \<le> m" "need_elems (y # ys) \<le> m"
    by (cases n) auto
  have "parse_value m (stringify x @ CHR '','' # stringify_elems (y # ys) @ CHR '']'' # r)
           = Some (x, CHR '','' # stringify_elems (y # ys) @ CHR '']'' # r)"
    using "9.IH"(1) "9.prems"(2) m(1) by (simp add: number_ends_punct)
  moreover have "parse_elems m (stringify_elems (y # ys) @ CHR '']'' # r) = Some (y # ys, r)"
    using "9.IH"(2) "9.prems"(2) m(2) by simp
  ultimately show ?case
    unfolding n by (rule parse_elems_more)
next
  case 10
  then show ?case by simp
next
  case (11 k v)
  then obtain m where n: "n = Suc m" and m: "need v \<le> m" by (cases n) auto
  have "parse_value m (stringify v @ CHR ''}'' # r) = Some (v, CHR ''}'' # r)"
    using "11.IH" "11.prems"(2) m by (simp add: number_ends_punct)
  then show ?case
    unfolding n by (rule parse_members_last)
next
  case (12 k v kv kvs)
  then obtain m where n: "n = Suc m" and m: "need v \<le> m" "need_members (kv # kvs) \<le> m"
    by (cases n) auto
  have "parse_value m (stringify v @ CHR '','' # stringify_members (kv # kvs) @ CHR ''}'' # r)
           = Some (v, CHR '','' # stringify_members (kv # kvs) @ CHR ''}'' # r)"
    using "12.IH"(1) "12.prems"(2) m(1) by (simp add: number_ends_punct)
  moreover have "parse_members m (stringify_members (kv # kvs) @ CHR ''}'' # r) = Some (kv # kvs, r)"
    using "12.IH"(2) "12.prems"(2) m(2) by simp
  ultimately show ?case
    unfolding n by (rule parse_members_more)
qed

lemma show_int_not_Nil: "show_int i \<noteq> []"
  by (simp add: show_int_def show_nat_not_Nil)

lemma need_length:
  "need v \<le> length (stringify v)"
  "need_elems xs \<le> Suc (length (stringify_elems xs))"
  "need_members kvs \<le> Suc (length (stringify_members kvs))"
proof (induction v and xs and kvs rule: stringify_stringify_elems_stringify_members.induct)
  case (3 i)
  then show ?case
    using show_int_not_Nil [of i] by (cases "show_int i") simp_all
next
  case (4 s)
  then show ?case by (simp add: quote_def)
qed simp_all

lemma json_parse_stringify: "wf_json v \<Longrightarrow> json_parse (stringify v) = Some v"
  using parse_stringify(1) [of v "length (stringify v)" "[]"] need_length(1) [of v]
  by (simp add: json_parse_def number_ends_punct skip_ws_def)


lemma strip_start_keep:
  assumes "c \<notin> set (map hd ws)"
  shows "strip_start ws (c # cs) = c # cs"
proof -
  have "find (\<lambda>w. w \<noteq> [] \<and> prefix w (c # cs)) ws = None"
  proof (rule ccontr)
    assume "find (\<lambda>w. w \<noteq> [] \<and> prefix w (c # cs)) ws \<noteq> None"
    then obtain w where w: "w \<in> set ws" "w \<noteq> []" "prefix w (c # cs)"
      by (auto simp: find_None_iff)
    from w(2,3) have "hd w = c" by (cases w) auto
    with w(1) assms show False by auto
  qed
  then show ?thesis by simp
qed

lemma white_space_heads:
  "CHR ''d'' \<notin> set (map hd white_space)"
  "CHR ''{'' \<notin> set (map hd white_space)"
  "CHR ''}'' \<notin> set (map hd (map rev white_space))"
  by code_simp+

lemma strip_start_space: "strip_start white_space (CHR '' '' # s) = strip_start white_space s"
proof -
  have "'' '' \<in> set white_space" by code_simp
  from strip_start_code [OF code_ok_white this, of s] show ?thesis by simp
qed

lemma trim_tight:
  assumes "c \<notin> set (map hd white_space)" and "d \<notin> set (map hd (map rev white_space))"
  shows "trim (c # m @ [d]) = c # m @ [d]"
proof -
  have a: "strip_start white_space (c # m @ [d]) = c # m @ [d]"
    using assms(1) by (rule strip_start_keep)
  have b: "rev (c # m @ [d]) = d # rev m @ [c]"
    by simp
  have c: "strip_start (map rev white_space) (d # rev m @ [c]) = d # rev m @ [c]"
    using assms(2) by (rule strip_start_keep)
  show ?thesis
    unfolding trim_def a b c by simp
qed

lemma readSSE_Nil: "readSSE [] = []"
  by (simp add: readSSE.simps)

lemma readSSE_cut:
  "index_nn b = Some idx \<Longrightarrow> readSSE b = read_chunk (take idx b) @ readSSE (drop (idx + 2) b)"
  by (subst readSSE.simps) simp

lemma read_chunk_object:
  assumes "wf_json (JObj kvs)"
  shows "read_chunk (''data: '' @ stringify (JObj kvs)) = [JObj kvs]"
proof -
  let ?s = "''data: '' @ stringify (JObj kvs)"
  have "?s = CHR ''d'' # (''ata: {'' @ stringify_members kvs) @ ''}''"
    by simp
  moreover have "trim (CHR ''d'' # (''ata: {'' @ stringify_members kvs) @ ''}'')
                   = CHR ''d'' # (''ata: {'' @ stringify_members kvs) @ ''}''"
    using white_space_heads(1,3) by (rule trim_tight)
  ultimately have "trim ?s = ?s"
    by (simp only:)
  moreover have "strip_start white_space (CHR '' '' # stringify (JObj kvs)) = stringify (JObj kvs)"
  proof -
    have "strip_start white_space (CHR ''{'' # stringify_members kvs @ ''}'')
            = CHR ''{'' # stringify_members kvs @ ''}''"
      using white_space_heads(2) by (rule strip_start_keep)
    then show ?thesis
      by (simp only: strip_start_space stringify.simps)
  qed
  ultimately show ?thesis
    using json_parse_stringify [OF assms]
    by (simp add: read_chunk_def del: stringify.simps strip_start.simps)
qed


lemma wf_json_of_event: "wf_event ev \<Longrightarrow> wf_json (json_of_event ev)"
  by (cases ev rule: json_of_event.cases) simp_all




subsection \<open>The stream after it is closed, and signals in turn\<close>

lemma writer_closed_step: "closing (writer b) \<Longrightarrow> writer (step b a) = writer b"
proof (cases a)
  case (Deliver sig)
  assume "closing (writer b)"
  then show ?thesis
    using Deliver
    by (cases sig)
       (simp_all add: onopen_def onmessage_def onerror_def onclose_def onabort_def
          await_write_def writer_write_def try_session_close_def session_close_def)
next
  case Resume
  assume c: "closing (writer b)"
  show ?thesis
  proof (cases "pending b")
    case Nil
    then show ?thesis using Resume by (simp add: resume_def)
  next
    case (Cons kr rest)
    obtain k r where kr: "kr = (k, r)" by (cases kr)
    show ?thesis
      using c Resume Cons kr
      by (cases k)
         (simp_all add: resume_def closeWith_def closeWith_close_def await_write_def
            await_close_def writer_write_def writer_close_def try_session_close_def
            session_close_def failed_def)
  qed
qed

text \<open>
  Once \<open>writer.close()\<close> has been called, nothing that the session or the callbacks do
  adds a frame, whatever the order.
\<close>

theorem closed_stream_stays:
  "closing (writer b) \<Longrightarrow> writer (run acts b) = writer b"
proof (induction acts arbitrary: b)
  case Nil
  then show ?case by (simp add: run_Nil)
next
  case (Cons a acts)
  have w: "writer (step b a) = writer b"
    using Cons.prems by (rule writer_closed_step)
  then have "closing (writer (step b a))"
    using Cons.prems by simp
  from Cons.IH [OF this] w show ?case
    by (simp add: run_Cons)
qed

theorem closed_stream_stays_witness:
  "writer (run [Deliver (SigClose ''error''), Resume, Resume]
            (run_in_turn [SigOpen, SigError ''boom''] (init_bridge False)))
   = \<lparr>chunks = map frame [Open, Error ''boom'', End (Some (JStr ''error''))], closing = True\<rparr>"
proof -
  have w: "writer (run_in_turn [SigOpen, SigError ''boom''] (init_bridge False))
           = \<lparr>chunks = map frame [Open, Error ''boom'', End (Some (JStr ''error''))],
              closing = True\<rparr>"
    by (simp add: bridge_defs drain_done drain_more)
  then have "closing (writer (run_in_turn [SigOpen, SigError ''boom''] (init_bridge False)))"
    by simp
  from closed_stream_stays [OF this, of "[Deliver (SigClose ''error''), Resume, Resume]"] w
  show ?thesis by simp
qed

lemma in_turn_closed:
  assumes "pending b = []" and "closing (writer b)"
  shows "writer (drain (deliver sig b)) = writer b"
proof -
  have "drain (deliver sig b) = drain (resume (deliver sig b))
        \<and> pending (resume (deliver sig b)) = [] \<and> writer (resume (deliver sig b)) = writer b"
    using assms
    by (cases sig)
       (simp_all add: drain_more drain_done onopen_def onmessage_def onerror_def onclose_def
          onabort_def await_write_def writer_write_def try_session_close_def session_close_def
          resume_def failed_def)
  then show ?thesis by (simp add: drain_done)
qed

lemma in_turn_open:
  assumes "pending b = []" and "\<not> closing (writer b)"
  shows "writer (drain (deliver sig b)) =
           (case sig of
              SigOpen \<Rightarrow> (writer b)\<lparr>chunks := chunks (writer b) @ [frame Open]\<rparr>
            | SigMessage m \<Rightarrow>
                if turnComplete m
                then \<lparr>chunks = chunks (writer b) @
                        [frame (Message m), frame (End (Some (JStr ''turn_complete'')))],
                      closing = True\<rparr>
                else (writer b)\<lparr>chunks := chunks (writer b) @ [frame (Message m)]\<rparr>
            | SigError e \<Rightarrow>
                \<lparr>chunks = chunks (writer b) @ [frame (Error e), frame (End (Some (JStr ''error'')))],
                 closing = True\<rparr>
            | SigClose r \<Rightarrow>
                \<lparr>chunks = chunks (writer b) @ [frame (Close r), frame (End (Some (JStr ''closed'')))],
                 closing = True\<rparr>
            | SigAbort \<Rightarrow> writer b)"
proof (cases sig)
  case SigOpen
  then show ?thesis
    using assms by (simp add: sched_defs drain_done drain_more)
next
  case (SigMessage m)
  have "turnComplete m \<Longrightarrow> m \<noteq> JNull"
    by (auto simp: turnComplete_def)
  then show ?thesis
    using assms SigMessage by (simp add: sched_defs drain_done drain_more)
next
  case (SigError e)
  then show ?thesis
    using assms by (simp add: sched_defs drain_done drain_more)
next
  case (SigClose r)
  then show ?thesis
    using assms by (simp add: sched_defs drain_done drain_more)
next
  case SigAbort
  then show ?thesis
    using assms by (simp add: sched_defs drain_done drain_more)
qed

lemma run_in_turn_Cons:
  "run_in_turn (sig # sigs) b = run_in_turn sigs (drain (deliver sig b))"
  by (simp add: run_in_turn_def)

lemma run_in_turn_closed:
  "pending b = [] \<Longrightarrow> closing (writer b) \<Longrightarrow> writer (run_in_turn sigs b) = writer b"
proof (induction sigs arbitrary: b)
  case Nil
  then show ?case by (simp add: run_in_turn_def)
next
  case (Cons sig sigs)
  have w: "writer (drain (deliver sig b)) = writer b"
    using Cons.prems by (rule in_turn_closed)
  have "writer (run_in_turn sigs (drain (deliver sig b))) = writer (drain (deliver sig b))"
    using Cons.prems w by (intro Cons.IH) (simp_all add: pending_drain)
  then show ?case
    using w by (simp add: run_in_turn_Cons)
qed

lemma run_in_turn_spec:
  "pending b = [] \<Longrightarrow> \<not> closing (writer b) \<Longrightarrow>
   chunks (writer (run_in_turn sigs b)) = chunks (writer b) @ map frame (bridge_spec sigs)"
proof (induction sigs arbitrary: b)
  case Nil
  then show ?case by (simp add: run_in_turn_def)
next
  case (Cons sig sigs)
  let ?b = "drain (deliver sig b)"
  have p: "pending ?b = []"
    by (rule pending_drain)
  note w = in_turn_open [OF Cons.prems, of sig]
  show ?case
  proof (cases "closing (writer ?b)")
    case True
    have "writer (run_in_turn sigs ?b) = writer ?b"
      using p True by (rule run_in_turn_closed)
    then show ?thesis
      using w True Cons.prems(2)
      by (cases sig) (auto simp: run_in_turn_Cons split: if_splits)
  next
    case False
    have "chunks (writer (run_in_turn sigs ?b)) = chunks (writer ?b) @ map frame (bridge_spec sigs)"
      using p False by (rule Cons.IH)
    then show ?thesis
      using w False
      by (cases sig) (auto simp: run_in_turn_Cons split: if_splits)
  qed
qed

lemma bridge_spec_end_last:
  "length (filter is_end (bridge_spec sigs)) \<le> 1 \<and>
   (\<forall>ev\<in>set (butlast (bridge_spec sigs)). \<not> is_end ev)"
  by (induction sigs rule: bridge_spec.induct) (auto simp: is_end_def)

text \<open>
  When every callback has ended before the next signal is delivered, the stream holds the
  frames of the events that the reactor of the specification gives: at most one \<open>end\<close>
  frame, and no frame after it.
\<close>

theorem in_turn_bridge_follows_spec:
  "chunks (writer (run_in_turn sigs (init_bridge strict))) = map frame (bridge_spec sigs) \<and>
   length (filter is_end (bridge_spec sigs)) \<le> 1 \<and>
   (\<forall>ev\<in>set (butlast (bridge_spec sigs)). \<not> is_end ev)"
  using run_in_turn_spec [of "init_bridge strict" sigs] bridge_spec_end_last [of sigs]
  by (simp add: init_bridge_def)

theorem in_turn_bridge_follows_spec_witness:
  "chunks (writer (run_in_turn
      [SigOpen, SigMessage spoken_message, SigMessage turn_complete_message, SigClose ''done'']
      (init_bridge False)))
   = map frame [Open, Message spoken_message, Message turn_complete_message,
       End (Some (JStr ''turn_complete''))]"
  using in_turn_bridge_follows_spec
    [of "[SigOpen, SigMessage spoken_message, SigMessage turn_complete_message, SigClose ''done'']" False]
  by (simp add: turnComplete_def get_prop_def spoken_message_def turn_complete_message_def
      js_truthy_def)

subsection \<open>A whole stream read back\<close>

lemma index_nn_first:
  "newline \<notin> set xs \<Longrightarrow> index_nn (xs @ newline # newline # rest) = Some (length xs)"
proof (induction xs)
  case Nil
  then show ?case by simp
next
  case (Cons a xs)
  then show ?case by (cases xs) auto
qed

lemma readSSE_frame_Cons:
  assumes "wf_event ev"
  shows "readSSE (frame ev @ rest) = json_of_event ev # readSSE rest"
proof -
  obtain kvs where j: "json_of_event ev = JObj kvs"
    by (cases ev rule: json_of_event.cases) simp_all
  have wf: "wf_json (JObj kvs)"
    using wf_json_of_event [OF assms] j by simp
  let ?b = "''data: '' @ stringify (JObj kvs)"
  have nl: "newline \<notin> set ?b"
    using newline_notin_stringify(1) [of "JObj kvs"] by (simp add: newline_def)
  have idx: "index_nn (?b @ newline # newline # rest) = Some (length ?b)"
    using nl by (rule index_nn_first)
  have "readSSE (?b @ newline # newline # rest) = read_chunk ?b @ readSSE rest"
    using readSSE_cut [OF idx] by simp
  then show ?thesis
    using read_chunk_object [OF wf] j
    by (simp add: frame_def sseEvent_def del: stringify.simps)
qed

text \<open>
  Reading back a whole stream of frames gives the encoded objects, one for each frame and
  in their order.
\<close>

theorem stream_round_trip:
  "list_all wf_event evs \<Longrightarrow> readSSE (concat (map frame evs)) = map json_of_event evs"
  by (induction evs) (simp_all add: readSSE_Nil readSSE_frame_Cons)

theorem stream_round_trip_witness:
  "readSSE (concat (map frame [Open, Message turn_complete_message, End (Some (JStr ''turn_complete''))]))
   = map json_of_event [Open, Message turn_complete_message, End (Some (JStr ''turn_complete''))]"
  using stream_round_trip [of "[Open, Message turn_complete_message, End (Some (JStr ''turn_complete''))]"]
  by (simp add: turn_complete_message_def)

subsection \<open>Allowed origins and turns\<close>

lemma header_names:
  "map lower_char ''Access-Control-Allow-Origin'' = ''access-control-allow-origin''"
  "map lower_char ''Access-Control-Allow-Credentials'' = ''access-control-allow-credentials''"
  "map lower_char ''Access-Control-Allow-Methods'' = ''access-control-allow-methods''"
  "map lower_char ''Access-Control-Allow-Headers'' = ''access-control-allow-headers''"
  "map lower_char ''Access-Control-Max-Age'' = ''access-control-max-age''"
  "map lower_char ''Vary'' = ''vary''"
  by code_simp+

text \<open>
  With an explicit allow-list, the origin of the request is echoed, with \<open>Vary: Origin\<close>,
  exactly when it is on the list.
\<close>

theorem cors_echoes_allowed_origin:
  "parseAllowedOrigins e = Origins l \<Longrightarrow> origin \<noteq> [] \<Longrightarrow>
   hget (corsHeaders e (Some origin)) ''Access-Control-Allow-Origin''
     = (if origin \<in> set l then Some origin else None) \<and>
   hget (corsHeaders e (Some origin)) ''Vary''
     = (if origin \<in> set l then Some ''Origin'' else None)"
  by (simp add: corsHeaders_def hget_def hset_def header_names truthy_def Let_def)

theorem cors_echoes_allowed_origin_witness:
  "hget (corsHeaders (env_with_key\<lparr>CORS_ALLOW_ORIGINS := Some ''https://app.example.com''\<rparr>)
      (Some ''https://app.example.com'')) ''Access-Control-Allow-Origin''
     = Some ''https://app.example.com'' \<and>
   hget (corsHeaders (env_with_key\<lparr>CORS_ALLOW_ORIGINS := Some ''https://app.example.com''\<rparr>)
      (Some ''https://app.example.com'')) ''Vary'' = Some ''Origin''"
proof -
  have "parseAllowedOrigins (env_with_key\<lparr>CORS_ALLOW_ORIGINS := Some ''https://app.example.com''\<rparr>)
        = Origins [''https://app.example.com'']"
    by code_simp
  from cors_echoes_allowed_origin [OF this, of "''https://app.example.com''"]
  show ?thesis by simp
qed

text \<open>
  The turns for each shape of input: the default turn for an absent, empty or malformed
  input of POST and for no \<open>input\<close> parameter of GET; the string alone for a string
  that is not empty; the list as it is otherwise. GET always has a turn.
\<close>

theorem turns_of_input:
  "post_turns None = [JStr ''Hello!''] \<and>
   post_turns (Some (JStr [])) = [JStr ''Hello!''] \<and>
   post_turns (Some JNull) = [JStr ''Hello!''] \<and>
   post_turns (Some (JNum i)) = [JStr ''Hello!''] \<and>
   post_turns (Some (JBool b)) = [JStr ''Hello!''] \<and>
   post_turns (Some (JObj kvs)) = [JStr ''Hello!''] \<and>
   post_turns (Some (JStr (c # s))) = [JStr (c # s)] \<and>
   post_turns (Some (JArr xs)) = xs \<and>
   get_turns [] = [''Hello!''] \<and>
   get_turns (t # ts) = t # ts \<and>
   1 \<le> length (get_turns input)"
  by (cases input) (simp_all add: get_turns_def)

end
